theory Spec2Isabelle
  imports Main "HOL-Library.Word" "HOL-Library.Signed_Division" "HOL-Library.Sublist"
begin

unbundle bit_operations_syntax

section \<open>Outcomes of a call\<close>

text \<open>
  A call of a member function of \<^verbatim>\<open>LROrderedLinkedList\<close> has one of three outcomes:
  it never returns (\<open>None\<close>: a spin loop that never sees its exit condition, a mutex
  that is never released), it runs into undefined behaviour or throws (\<open>Some (Inl f)\<close>),
  or it returns a value (\<open>Some (Inr (x, t))\<close>). In the last case \<open>t\<close> is the list, in
  program order, of the accesses the call made to the shared members of the object:
  the two atomics \<^verbatim>\<open>_leftRight\<close> and \<^verbatim>\<open>_versionIndex\<close>, the two counter arrays, the
  two \<^verbatim>\<open>LinkedListSet\<close> instances and the mutex.
\<close>

datatype fault =
    DivisionByZero    \<comment> \<open>\<^verbatim>\<open>tid % _numCores\<close> with \<^verbatim>\<open>_numCores == 0\<close>\<close>
  | OutOfBounds       \<comment> \<open>an index outside the allocated counter array\<close>
  | BadArrayLength    \<comment> \<open>\<^verbatim>\<open>new std::atomic<int>[n]\<close> with negative \<open>n\<close>\<close>

datatype 'k event =
    MutexLock
  | MutexUnlock
  | LeftRightLoad int
  | LeftRightStore int
  | VersionIndexLoad int
  | VersionIndexStore int
  | CounterStore int int "32 word"      \<comment> \<open>array (0 or 1), index, value stored\<close>
  | CounterLoad int int "32 word"       \<comment> \<open>array, index, value read\<close>
  | CounterFetchAdd int int "32 word"   \<comment> \<open>array, index, addend\<close>
  | SetAdd int 'k bool                  \<comment> \<open>mirror (1 or 2), key, value returned\<close>
  | SetRemove int 'k bool
  | SetContains int 'k bool
  | Yield

type_synonym ('a, 'k) res = "(fault + ('a \<times> 'k event list)) option"

definition ret :: "'a \<Rightarrow> ('a, 'k) res" where
  "ret x = Some (Inr (x, []))"

definition emit :: "'k event \<Rightarrow> 'a \<Rightarrow> ('a, 'k) res" where
  "emit e x = Some (Inr (x, [e]))"

definition fail :: "fault \<Rightarrow> ('a, 'k) res" where
  "fail f = Some (Inl f)"

definition bind :: "('a, 'k) res \<Rightarrow> ('a \<Rightarrow> ('b, 'k) res) \<Rightarrow> ('b, 'k) res" where
  "bind m f =
     (case m of
        None \<Rightarrow> None
      | Some (Inl e) \<Rightarrow> Some (Inl e)
      | Some (Inr (x, t)) \<Rightarrow>
          (case f x of
             None \<Rightarrow> None
           | Some (Inl e) \<Rightarrow> Some (Inl e)
           | Some (Inr (y, t')) \<Rightarrow> Some (Inr (y, t @ t'))))"

lemma bind_mono [partial_function_mono]:
  fixes B :: "('x \<Rightarrow> 'y option) \<Rightarrow> ('a, 'k) res"
  assumes mf: "mono_option B" and mg: "\<And>y. mono_option (\<lambda>f. C y f)"
  shows "mono_option (\<lambda>f. bind (B f) (\<lambda>y. C y f))"
proof (rule monotoneI)
  fix f g :: "'x \<Rightarrow> 'y option"
  assume fg: "fun_ord option_ord f g"
  have 1: "option_ord (B f) (B g)"
    using mf fg by (rule monotoneD[of _ _ _ f g])
  have 2: "\<And>y. option_ord (C y f) (C y g)"
    using mg fg by (rule monotoneD[of _ _ _ f g])
  show "option_ord (bind (B f) (\<lambda>y. C y f)) (bind (B g) (\<lambda>y. C y g))"
  proof (cases "B f")
    case None
    then show ?thesis by (simp add: bind_def flat_ord_def)
  next
    case (Some r)
    with 1 have Bg: "B g = Some r" by (simp add: flat_ord_def)
    show ?thesis
    proof (cases r)
      case (Inl e)
      with Some Bg show ?thesis by (simp add: bind_def flat_ord_def)
    next
      case (Inr p)
      obtain x t where p: "p = (x, t)" by (cases p)
      from 2[of x] have "C x f = None \<or> C x f = C x g"
        by (simp add: flat_ord_def)
      then show ?thesis
      proof
        assume "C x f = None"
        then show ?thesis using Some Inr p by (simp add: bind_def flat_ord_def)
      next
        assume "C x f = C x g"
        then show ?thesis using Some Bg Inr p by (simp add: bind_def flat_ord_def)
      qed
    qed
  qed
qed

section \<open>The sequential set \<^verbatim>\<open>LinkedListSet\<close>\<close>

text \<open>
  Modelled from the spec: \<^verbatim>\<open>LinkedListSet.h\<close> is included by the source but is not part
  of it. Section 4.1 of the specification gives its contract: \<^verbatim>\<open>add\<close> inserts the key
  and returns false without mutation if the key is already present, \<^verbatim>\<open>remove\<close> deletes
  the key and returns false without mutation if it is absent, \<^verbatim>\<open>contains\<close> is the
  membership test. A default-constructed set is empty.
\<close>

type_synonym 'k LinkedListSet = "'k set"

definition LinkedListSet_add :: "'k \<Rightarrow> 'k LinkedListSet \<Rightarrow> bool \<times> 'k LinkedListSet" where
  "LinkedListSet_add key S = (if key \<in> S then (False, S) else (True, insert key S))"

definition LinkedListSet_remove :: "'k \<Rightarrow> 'k LinkedListSet \<Rightarrow> bool \<times> 'k LinkedListSet" where
  "LinkedListSet_remove key S = (if key \<in> S then (True, S - {key}) else (False, S))"

definition LinkedListSet_contains :: "'k \<Rightarrow> 'k LinkedListSet \<Rightarrow> bool" where
  "LinkedListSet_contains key S = (key \<in> S)"

section \<open>The members of \<^verbatim>\<open>LROrderedLinkedList\<close>\<close>

text \<open>
  The counters are \<^verbatim>\<open>std::atomic<int>\<close>: 32-bit words, on which \<^verbatim>\<open>fetch_add\<close> wraps
  around. The other \<^verbatim>\<open>int\<close> members are integers; where the source converts a wider
  value to \<^verbatim>\<open>int\<close> the conversion \<open>to_int\<close> is written out. \<open>writersMutex\<close> is true
  while the mutex is held.
\<close>

record 'k lrstate =
  set1 :: "'k LinkedListSet"
  set2 :: "'k LinkedListSet"
  leftRight :: int
  versionIndex :: int
  readersVersion0 :: "32 word list"
  readersVersion1 :: "32 word list"
  writersMutex :: bool
  numCores :: int
  readersLength :: int

definition READS_ON_LEFT :: int where
  "READS_ON_LEFT = 0"

definition READS_ON_RIGHT :: int where
  "READS_ON_RIGHT = 1"

text \<open>
  The macros \<^verbatim>\<open>LROLL_NUMBER_OF_CORES\<close> and \<^verbatim>\<open>LROLL_COUNTERS_RATIO\<close> that the header
  defines (with \<^verbatim>\<open>sizeof(int) = 4\<close>). The member functions use the differently spelled
  \<^verbatim>\<open>LROLLS_NUMBER_OF_CORES\<close> and \<^verbatim>\<open>LROLLS_COUNTERS_RATIO\<close>, which the header does not
  define: in the model these two are the parameters \<open>default_cores\<close> and \<open>ratio\<close>.
\<close>

definition LROLL_NUMBER_OF_CORES :: int where
  "LROLL_NUMBER_OF_CORES = 32"

definition LROLL_COUNTERS_RATIO :: nat where
  "LROLL_COUNTERS_RATIO = 3 * 64 div 4"

definition to_int :: "int \<Rightarrow> int" where
  \<comment> \<open>conversion of an integer value to the 32-bit \<^verbatim>\<open>int\<close>\<close>
  "to_int x = sint (word_of_int x :: 32 word)"

subsection \<open>The constructor\<close>

text \<open>
  \<^verbatim>\<open>new std::atomic<int>[n]\<close> leaves the counters uninitialised: the allocated arrays
  hold whatever \<open>junk0\<close> and \<open>junk1\<close> give, and the loop stores zero into the slots
  \<open>0, ratio, 2 * ratio, ...\<close> only. \<open>hardware_concurrency\<close> is the \<^verbatim>\<open>unsigned\<close> value
  returned by \<^verbatim>\<open>std::thread::hardware_concurrency()\<close>.
\<close>

partial_function (option) LROrderedLinkedList_loop ::
  "nat \<Rightarrow> int \<Rightarrow> 32 word list \<Rightarrow> 32 word list \<Rightarrow> int \<Rightarrow> (32 word list \<times> 32 word list, 'k) res"
where
  "LROrderedLinkedList_loop ratio len arr0 arr1 tid =
     (if tid < len then
        (if 0 \<le> tid \<and> nat tid < length arr0 \<and> nat tid < length arr1 then
           bind (emit (CounterStore 0 tid 0) (arr0[nat tid := 0])) (\<lambda>arr0'.
           bind (emit (CounterStore 1 tid 0) (arr1[nat tid := 0])) (\<lambda>arr1'.
             LROrderedLinkedList_loop ratio len arr0' arr1' (to_int (tid + int ratio))))
         else fail OutOfBounds)
      else ret (arr0, arr1))"

definition LROrderedLinkedList ::
  "int \<Rightarrow> nat \<Rightarrow> 32 word \<Rightarrow> (nat \<Rightarrow> 32 word) \<Rightarrow> (nat \<Rightarrow> 32 word) \<Rightarrow> ('k lrstate, 'k) res"
where
  "LROrderedLinkedList default_cores ratio hardware_concurrency junk0 junk1 =
     bind (emit (LeftRightStore READS_ON_LEFT) READS_ON_LEFT) (\<lambda>lr.
     bind (emit (VersionIndexStore 0) 0) (\<lambda>vi.
       let hw_cores = sint hardware_concurrency;
           hw_cores = (if hw_cores = 0 then default_cores else hw_cores);
           cores = hw_cores;
           len = to_int (cores * int ratio)
       in if len < 0 then fail BadArrayLength
          else
            bind (LROrderedLinkedList_loop ratio len
                    (map junk0 [0..<nat len]) (map junk1 [0..<nat len]) 0) (\<lambda>(arr0, arr1).
              ret \<lparr>set1 = {}, set2 = {}, leftRight = lr, versionIndex = vi,
                    readersVersion0 = arr0, readersVersion1 = arr1, writersMutex = False,
                    numCores = cores, readersLength = len\<rparr>)))"

subsection \<open>The read indicator\<close>

text \<open>
  \<open>h\<close> is \<^verbatim>\<open>std::hash<std::thread::id>\<close> of the calling thread, a 64-bit
  \<^verbatim>\<open>std::size_t\<close>. In \<^verbatim>\<open>tid % _numCores\<close> the \<^verbatim>\<open>int\<close> is converted to \<^verbatim>\<open>std::size_t\<close>;
  the product is converted to \<^verbatim>\<open>int\<close> on return.
\<close>

definition thread_2_tid :: "nat \<Rightarrow> 64 word \<Rightarrow> 'k lrstate \<Rightarrow> (int, 'k) res" where
  "thread_2_tid ratio h s =
     (let tid = h;
          tid = tid XOR (push_bit 21 tid);
          tid = tid XOR (drop_bit 35 tid);
          tid = tid XOR (push_bit 4 tid);
          n = (word_of_int (numCores s) :: 64 word)
      in if n = 0 then fail DivisionByZero
         else ret (sint (ucast ((tid mod n) * word_of_nat ratio) :: 32 word)))"

definition counter_fetch_add ::
  "int \<Rightarrow> 32 word list \<Rightarrow> int \<Rightarrow> 32 word \<Rightarrow> (32 word list, 'k) res"
where
  \<comment> \<open>\<^verbatim>\<open>_readersVersionA[tid].fetch_add(d)\<close>\<close>
  "counter_fetch_add a arr tid d =
     (if 0 \<le> tid \<and> nat tid < length arr
      then emit (CounterFetchAdd a tid d) (arr[nat tid := arr ! nat tid + d])
      else fail OutOfBounds)"

definition readIndicatorArrive :: "int \<Rightarrow> 'k lrstate \<Rightarrow> (int \<times> 'k lrstate, 'k) res" where
  "readIndicatorArrive tid s =
     bind (emit (VersionIndexLoad (versionIndex s)) (versionIndex s)) (\<lambda>localVersionIndex.
       if localVersionIndex = 0 then
         bind (counter_fetch_add 0 (readersVersion0 s) tid 1) (\<lambda>arr.
           ret (localVersionIndex, s\<lparr>readersVersion0 := arr\<rparr>))
       else
         bind (counter_fetch_add 1 (readersVersion1 s) tid 1) (\<lambda>arr.
           ret (localVersionIndex, s\<lparr>readersVersion1 := arr\<rparr>)))"

definition readIndicatorDepart :: "int \<Rightarrow> int \<Rightarrow> 'k lrstate \<Rightarrow> ('k lrstate, 'k) res" where
  "readIndicatorDepart tid localVersionIndex s =
     (if localVersionIndex = 0 then
        bind (counter_fetch_add 0 (readersVersion0 s) tid (- 1)) (\<lambda>arr.
          ret (s\<lparr>readersVersion0 := arr\<rparr>))
      else
        bind (counter_fetch_add 1 (readersVersion1 s) tid (- 1)) (\<lambda>arr.
          ret (s\<lparr>readersVersion1 := arr\<rparr>)))"

partial_function (option) readIndicatorIsEmpty_loop ::
  "nat \<Rightarrow> int \<Rightarrow> int \<Rightarrow> 32 word list \<Rightarrow> int \<Rightarrow> (bool, 'k) res"
where
  "readIndicatorIsEmpty_loop ratio len a arr tid =
     (if tid < len then
        (if 0 \<le> tid \<and> nat tid < length arr then
           bind (emit (CounterLoad a tid (arr ! nat tid)) (arr ! nat tid)) (\<lambda>c.
             if c \<noteq> 0 then ret False
             else readIndicatorIsEmpty_loop ratio len a arr (to_int (tid + int ratio)))
         else fail OutOfBounds)
      else ret True)"

definition readIndicatorIsEmpty :: "nat \<Rightarrow> int \<Rightarrow> 'k lrstate \<Rightarrow> (bool, 'k) res" where
  "readIndicatorIsEmpty ratio localVersionIndex s =
     (if localVersionIndex = 0
      then readIndicatorIsEmpty_loop ratio (readersLength s) 0 (readersVersion0 s) 0
      else readIndicatorIsEmpty_loop ratio (readersLength s) 1 (readersVersion1 s) 0)"

subsection \<open>The version toggle\<close>

text \<open>
  The two \<^verbatim>\<open>while (!readIndicatorIsEmpty(v)) std::this_thread::yield();\<close> loops. No other
  thread runs in this model, so the state is the same at every attempt.
\<close>

partial_function (option) toggleVersionAndWait_loop ::
  "nat \<Rightarrow> int \<Rightarrow> 'k lrstate \<Rightarrow> (unit, 'k) res"
where
  "toggleVersionAndWait_loop ratio v s =
     bind (readIndicatorIsEmpty ratio v s) (\<lambda>empty.
       if \<not> empty
       then bind (emit Yield ()) (\<lambda>u. toggleVersionAndWait_loop ratio v s)
       else ret ())"

definition toggleVersionAndWait :: "nat \<Rightarrow> 'k lrstate \<Rightarrow> ('k lrstate, 'k) res" where
  "toggleVersionAndWait ratio s =
     bind (emit (VersionIndexLoad (versionIndex s)) (versionIndex s)) (\<lambda>localVersionIndex.
       let prevVersionIndex = localVersionIndex smod 2;
           nextVersionIndex = (localVersionIndex + 1) smod 2
       in bind (toggleVersionAndWait_loop ratio nextVersionIndex s) (\<lambda>u.
          bind (emit (VersionIndexStore nextVersionIndex) (s\<lparr>versionIndex := nextVersionIndex\<rparr>)) (\<lambda>s'.
          bind (toggleVersionAndWait_loop ratio prevVersionIndex s') (\<lambda>u.
            ret s'))))"

subsection \<open>The mutex and the calls on the two sets\<close>

definition mutex_lock :: "'k lrstate \<Rightarrow> ('k lrstate, 'k) res" where
  \<comment> \<open>the constructor of \<^verbatim>\<open>std::lock_guard\<close>: blocks while the mutex is held\<close>
  "mutex_lock s = (if writersMutex s then None else emit MutexLock (s\<lparr>writersMutex := True\<rparr>))"

definition mutex_unlock :: "'k lrstate \<Rightarrow> ('k lrstate, 'k) res" where
  \<comment> \<open>the destructor of \<^verbatim>\<open>std::lock_guard\<close>, on every path out of the function\<close>
  "mutex_unlock s = emit MutexUnlock (s\<lparr>writersMutex := False\<rparr>)"

definition set1_add :: "'k \<Rightarrow> 'k lrstate \<Rightarrow> (bool \<times> 'k lrstate, 'k) res" where
  "set1_add key s =
     (case LinkedListSet_add key (set1 s) of (b, S) \<Rightarrow> emit (SetAdd 1 key b) (b, s\<lparr>set1 := S\<rparr>))"

definition set2_add :: "'k \<Rightarrow> 'k lrstate \<Rightarrow> (bool \<times> 'k lrstate, 'k) res" where
  "set2_add key s =
     (case LinkedListSet_add key (set2 s) of (b, S) \<Rightarrow> emit (SetAdd 2 key b) (b, s\<lparr>set2 := S\<rparr>))"

definition set1_remove :: "'k \<Rightarrow> 'k lrstate \<Rightarrow> (bool \<times> 'k lrstate, 'k) res" where
  "set1_remove key s =
     (case LinkedListSet_remove key (set1 s) of (b, S) \<Rightarrow> emit (SetRemove 1 key b) (b, s\<lparr>set1 := S\<rparr>))"

definition set2_remove :: "'k \<Rightarrow> 'k lrstate \<Rightarrow> (bool \<times> 'k lrstate, 'k) res" where
  "set2_remove key s =
     (case LinkedListSet_remove key (set2 s) of (b, S) \<Rightarrow> emit (SetRemove 2 key b) (b, s\<lparr>set2 := S\<rparr>))"

definition set1_contains :: "'k \<Rightarrow> 'k lrstate \<Rightarrow> (bool, 'k) res" where
  "set1_contains key s =
     (let b = LinkedListSet_contains key (set1 s) in emit (SetContains 1 key b) b)"

definition set2_contains :: "'k \<Rightarrow> 'k lrstate \<Rightarrow> (bool, 'k) res" where
  "set2_contains key s =
     (let b = LinkedListSet_contains key (set2 s) in emit (SetContains 2 key b) b)"

subsection \<open>The public operations\<close>

definition add :: "nat \<Rightarrow> 'k \<Rightarrow> 'k lrstate \<Rightarrow> (bool \<times> 'k lrstate, 'k) res" where
  "add ratio key s0 =
     bind (mutex_lock s0) (\<lambda>s.
     bind (emit (LeftRightLoad (leftRight s)) (leftRight s)) (\<lambda>lr.
       if lr = READS_ON_LEFT then
         bind (set2_add key s) (\<lambda>(ok, s).
           if \<not> ok then bind (mutex_unlock s) (\<lambda>s. ret (False, s))
           else
             bind (emit (LeftRightStore READS_ON_RIGHT) (s\<lparr>leftRight := READS_ON_RIGHT\<rparr>)) (\<lambda>s.
             bind (toggleVersionAndWait ratio s) (\<lambda>s.
             bind (set1_add key s) (\<lambda>(ignored, s).
             bind (mutex_unlock s) (\<lambda>s. ret (True, s))))))
       else
         bind (set1_add key s) (\<lambda>(ok, s).
           if \<not> ok then bind (mutex_unlock s) (\<lambda>s. ret (False, s))
           else
             bind (emit (LeftRightStore READS_ON_LEFT) (s\<lparr>leftRight := READS_ON_LEFT\<rparr>)) (\<lambda>s.
             bind (toggleVersionAndWait ratio s) (\<lambda>s.
             bind (set2_add key s) (\<lambda>(ignored, s).
             bind (mutex_unlock s) (\<lambda>s. ret (True, s))))))))"

definition contains :: "nat \<Rightarrow> 'k \<Rightarrow> 64 word \<Rightarrow> 'k lrstate \<Rightarrow> (bool \<times> 'k lrstate, 'k) res" where
  "contains ratio key h s =
     bind (thread_2_tid ratio h s) (\<lambda>tid.
     bind (readIndicatorArrive tid s) (\<lambda>(localVersionIndex, s).
     bind (emit (LeftRightLoad (leftRight s)) (leftRight s)) (\<lambda>lr.
     bind (if lr = READS_ON_LEFT then set1_contains key s else set2_contains key s) (\<lambda>retValue.
     bind (readIndicatorDepart tid localVersionIndex s) (\<lambda>s.
       ret (retValue, s))))))"

definition remove :: "nat \<Rightarrow> 'k \<Rightarrow> 'k lrstate \<Rightarrow> (bool \<times> 'k lrstate, 'k) res" where
  "remove ratio key s0 =
     bind (mutex_lock s0) (\<lambda>s.
     bind (emit (LeftRightLoad (leftRight s)) (leftRight s)) (\<lambda>lr.
       if lr = READS_ON_LEFT then
         bind (set2_remove key s) (\<lambda>(ok, s).
           if \<not> ok then bind (mutex_unlock s) (\<lambda>s. ret (False, s))
           else
             bind (emit (LeftRightStore READS_ON_RIGHT) (s\<lparr>leftRight := READS_ON_RIGHT\<rparr>)) (\<lambda>s.
             bind (toggleVersionAndWait ratio s) (\<lambda>s.
             bind (set1_remove key s) (\<lambda>(ignored, s).
             bind (mutex_unlock s) (\<lambda>s. ret (True, s))))))
       else
         bind (set1_remove key s) (\<lambda>(ok, s).
           if \<not> ok then bind (mutex_unlock s) (\<lambda>s. ret (False, s))
           else
             bind (emit (LeftRightStore READS_ON_LEFT) (s\<lparr>leftRight := READS_ON_LEFT\<rparr>)) (\<lambda>s.
             bind (toggleVersionAndWait ratio s) (\<lambda>s.
             bind (set2_remove key s) (\<lambda>(ignored, s).
             bind (mutex_unlock s) (\<lambda>s. ret (True, s))))))))"

section \<open>States of a constructed container\<close>

text \<open>
  The constructor fixes \<open>numCores\<close> and \<open>readersLength\<close>, and no member function
  changes them or the length of the arrays. \<open>wellformed\<close> collects what the member
  functions rely on: a positive core count and ratio, a product that fits an \<^verbatim>\<open>int\<close>,
  arrays of that length, and a version index that is 0 or 1.
\<close>

definition wellformed :: "nat \<Rightarrow> 'k lrstate \<Rightarrow> bool" where
  "wellformed ratio s \<longleftrightarrow>
     0 < ratio \<and> 0 < numCores s \<and> numCores s * int ratio < 2 ^ 31 \<and>
     readersLength s = numCores s * int ratio \<and>
     length (readersVersion0 s) = nat (readersLength s) \<and>
     length (readersVersion1 s) = nat (readersLength s) \<and>
     (versionIndex s = 0 \<or> versionIndex s = 1)"

definition slots :: "nat \<Rightarrow> int \<Rightarrow> nat list" where
  \<comment> \<open>the indices \<open>0, ratio, 2 * ratio, ...\<close> of the counters that are in use\<close>
  "slots ratio cores = map (\<lambda>i. i * ratio) [0..<nat cores]"

definition quiescent :: "nat \<Rightarrow> 'k lrstate \<Rightarrow> bool" where
  \<comment> \<open>no reader is between its arrival and its departure\<close>
  "quiescent ratio s \<longleftrightarrow>
     list_all (\<lambda>i. readersVersion0 s ! i = 0 \<and> readersVersion1 s ! i = 0) (slots ratio (numCores s))"

definition scan :: "int \<Rightarrow> nat \<Rightarrow> int \<Rightarrow> 'k event list" where
  \<comment> \<open>the loads of one pass over array \<open>a\<close> that finds every counter at zero\<close>
  "scan a ratio cores = map (\<lambda>i. CounterLoad a (int i) 0) (slots ratio cores)"

fun scan_from :: "int \<Rightarrow> 32 word list \<Rightarrow> nat list \<Rightarrow> bool \<times> 'k event list" where
  \<comment> \<open>one pass over the given indices: it stops at the first counter that is not zero\<close>
  "scan_from a arr [] = (True, [])"
| "scan_from a arr (i # is) =
     (if arr ! i \<noteq> 0 then (False, [CounterLoad a (int i) (arr ! i)])
      else (fst (scan_from a arr is), CounterLoad a (int i) (arr ! i) # snd (scan_from a arr is)))"

definition zero_slots :: "nat list \<Rightarrow> 32 word list \<Rightarrow> 32 word list" where
  "zero_slots is arr = fold (\<lambda>i xs. xs[i := 0]) is arr"

definition init_stores :: "nat list \<Rightarrow> 'k event list" where
  "init_stores is = concat (map (\<lambda>i. [CounterStore 0 (int i) 0, CounterStore 1 (int i) 0]) is)"

definition core_count :: "int \<Rightarrow> 32 word \<Rightarrow> int" where
  \<comment> \<open>the value the constructor stores in \<^verbatim>\<open>_numCores\<close>\<close>
  "core_count default_cores hardware_concurrency =
     (if sint hardware_concurrency = 0 then default_cores else sint hardware_concurrency)"

definition valid_config :: "int \<Rightarrow> nat \<Rightarrow> 32 word \<Rightarrow> bool" where
  \<comment> \<open>the core count the constructor picks is positive and the arrays fit an \<^verbatim>\<open>int\<close> length\<close>
  "valid_config default_cores ratio hardware_concurrency \<longleftrightarrow>
     0 < ratio \<and> 0 < core_count default_cores hardware_concurrency \<and>
     core_count default_cores hardware_concurrency * int ratio < 2 ^ 31"

definition at_rest :: "nat \<Rightarrow> 'k lrstate \<Rightarrow> bool" where
  \<comment> \<open>between two calls: no writer holds the mutex, no reader is present, the mirrors agree\<close>
  "at_rest ratio s \<longleftrightarrow>
     wellformed ratio s \<and> quiescent ratio s \<and> \<not> writersMutex s \<and> set1 s = set2 s"

definition toggle_events :: "nat \<Rightarrow> 'k lrstate \<Rightarrow> 'k event list" where
  \<comment> \<open>what \<^verbatim>\<open>toggleVersionAndWait\<close> does when both arrays are found empty at once\<close>
  "toggle_events ratio s =
     [VersionIndexLoad (versionIndex s)] @ scan (1 - versionIndex s) ratio (numCores s) @
     [VersionIndexStore (1 - versionIndex s)] @ scan (versionIndex s) ratio (numCores s)"

section \<open>Calls of a single thread\<close>

text \<open>
  A thread is known to the container by the hash \<open>h\<close> of its identifier. \<open>run\<close> issues
  a list of calls one after the other and collects the values returned.
\<close>

datatype 'k call = Add 'k | Remove 'k | Contains 'k

definition invoke :: "nat \<Rightarrow> 64 word \<Rightarrow> 'k call \<Rightarrow> 'k lrstate \<Rightarrow> (bool \<times> 'k lrstate, 'k) res" where
  "invoke ratio h c s =
     (case c of Add key \<Rightarrow> add ratio key s
              | Remove key \<Rightarrow> remove ratio key s
              | Contains key \<Rightarrow> contains ratio key h s)"

fun run :: "nat \<Rightarrow> 64 word \<Rightarrow> 'k call list \<Rightarrow> 'k lrstate \<Rightarrow> (bool list \<times> 'k lrstate, 'k) res" where
  "run ratio h [] s = ret ([], s)"
| "run ratio h (c # cs) s =
     bind (invoke ratio h c s) (\<lambda>(r, s').
     bind (run ratio h cs s') (\<lambda>(rs, s'').
       ret (r # rs, s'')))"

text \<open>
  The plain set of the specification's sequential-correctness property: \<^verbatim>\<open>add\<close> returns
  true iff the key was absent before the call, \<^verbatim>\<open>remove\<close> returns true iff it was
  present, \<^verbatim>\<open>contains\<close> reports membership.
\<close>

fun plain_set :: "'k call \<Rightarrow> 'k set \<Rightarrow> bool \<times> 'k set" where
  "plain_set (Add key) S = (key \<notin> S, insert key S)"
| "plain_set (Remove key) S = (key \<in> S, S - {key})"
| "plain_set (Contains key) S = (key \<in> S, S)"

fun plain_set_run :: "'k call list \<Rightarrow> 'k set \<Rightarrow> bool list" where
  "plain_set_run [] S = []"
| "plain_set_run (c # cs) S = fst (plain_set c S) # plain_set_run cs (snd (plain_set c S))"

text \<open>
  The contents of the two mirrors after a recorded access: only the \<^verbatim>\<open>add\<close> and
  \<^verbatim>\<open>remove\<close> calls on a mirror change it. \<open>replay\<close> gives the contents after a whole
  list of accesses.
\<close>

fun mirrors_after :: "'k event \<Rightarrow> 'k set \<times> 'k set \<Rightarrow> 'k set \<times> 'k set" where
  "mirrors_after (SetAdd m key b) (A, B) =
     (if m = 1 then (snd (LinkedListSet_add key A), B) else (A, snd (LinkedListSet_add key B)))"
| "mirrors_after (SetRemove m key b) (A, B) =
     (if m = 1 then (snd (LinkedListSet_remove key A), B) else (A, snd (LinkedListSet_remove key B)))"
| "mirrors_after e (A, B) = (A, B)"

definition replay :: "'k event list \<Rightarrow> 'k set \<times> 'k set \<Rightarrow> 'k set \<times> 'k set" where
  "replay t m = fold mirrors_after t m"

definition mutation :: "'k event \<Rightarrow> bool" where
  "mutation e = (case e of SetAdd m key b \<Rightarrow> True | SetRemove m key b \<Rightarrow> True | _ \<Rightarrow> False)"

text \<open>
  \<open>differ_by_exactly key\<close>: the one key is in one mirror and not in the other, and every
  other key is in both or in neither. \<open>two_step key s s' t\<close>: the accesses \<open>t\<close> of a call
  hold exactly two calls that change a mirror; at every point after the first and before
  the second the mirrors, replayed from those of \<open>s\<close>, differ by exactly the key; and
  replaying all of \<open>t\<close> gives the mirrors of \<open>s'\<close>.
\<close>

definition differ_by_exactly :: "'k \<Rightarrow> 'k set \<times> 'k set \<Rightarrow> bool" where
  "differ_by_exactly key m \<longleftrightarrow> (fst m - snd m) \<union> (snd m - fst m) = {key}"

definition two_step :: "'k \<Rightarrow> 'k lrstate \<Rightarrow> 'k lrstate \<Rightarrow> 'k event list \<Rightarrow> bool" where
  "two_step key s s' t \<longleftrightarrow>
     (\<exists>t1 e1 t2 e2 t3.
        t = t1 @ [e1] @ t2 @ [e2] @ t3 \<and> mutation e1 \<and> mutation e2 \<and>
        list_all (\<lambda>e. \<not> mutation e) (t1 @ t2 @ t3) \<and>
        (\<forall>u. prefix u t2 \<longrightarrow> differ_by_exactly key (replay (t1 @ [e1] @ u) (set1 s, set2 s))) \<and>
        replay t (set1 s, set2 s) = (set1 s', set2 s'))"

text \<open>
  \<open>returned\<close> is the value of a call that returns. \<open>zeroed\<close> is memory that reads zero
  where it was never written.
\<close>

definition returned :: "('a, 'k) res \<Rightarrow> 'a option" where
  "returned r = (case r of Some (Inr (x, t)) \<Rightarrow> Some x | _ \<Rightarrow> None)"

definition zeroed :: "nat \<Rightarrow> 32 word" where
  "zeroed i = 0"

text \<open>
  The core count in the specification's words, for comparison with \<open>core_count\<close>: an
  optional hint that defaults to the runtime estimate of the hardware concurrency,
  \<open>estimate\<close>.
\<close>

definition spec_core_count :: "int option \<Rightarrow> int \<Rightarrow> int" where
  "spec_core_count hint estimate = (case hint of Some n \<Rightarrow> n | None \<Rightarrow> estimate)"


text \<open>
  A small container at rest, used to instantiate the results below: two cores, a ratio of
  three, the key 7 in both mirrors, readers directed to the right-hand mirror.
\<close>

definition example_state :: "int lrstate" where
  "example_state =
     \<lparr>set1 = {7}, set2 = {7}, leftRight = READS_ON_RIGHT, versionIndex = 1,
      readersVersion0 = [0, 0, 0, 0, 0, 0], readersVersion1 = [0, 0, 0, 0, 0, 0],
      writersMutex = False, numCores = 2, readersLength = 6\<rparr>"

section \<open>Auxiliary facts\<close>

subsection \<open>Arithmetic of the slot indices\<close>

lemma to_int_id: "- (2 ^ 31) \<le> x \<Longrightarrow> x < 2 ^ 31 \<Longrightarrow> to_int x = x"
  by (simp add: to_int_def sint_sbintrunc' signed_take_bit_int_eq_self)

lemma nat_less_of_int_less: "int (m * ratio) < 2 ^ 31 \<Longrightarrow> m * ratio < (2::nat) ^ 31"
  by (simp only: of_nat_less_numeral_power_cancel_iff)

lemma factor_less: "0 < ratio \<Longrightarrow> m * ratio < (2::nat) ^ 31 \<Longrightarrow> m < 2 ^ 31"
  by (cases ratio) (auto intro: le_less_trans[rotated])

lemma slot_less: "i < m \<Longrightarrow> m * ratio < (2::nat) ^ 31 \<Longrightarrow> i * ratio < 2 ^ 31"
  by (erule le_less_trans[rotated]) simp

lemma unat_of_nat64: "m < 2 ^ 31 \<Longrightarrow> unat (of_nat m :: 64 word) = m"
  by (simp add: unat_of_nat take_bit_nat_eq_self)

lemma sint_ucast_small:
  assumes x: "x < 2 ^ 31" and w: "unat (w :: 64 word) = x"
  shows "sint (ucast w :: 32 word) = int x"
proof -
  have "uint w = int x" by (simp flip: w)
  then have "(ucast w :: 32 word) = word_of_int (int x)"
    by (simp add: ucast_eq)
  then show ?thesis using x
    by (simp add: signed_of_nat signed_take_bit_int_eq_self)
qed

lemma slot_word:
  fixes w :: "64 word"
  assumes r: "0 < ratio" and n: "0 < n" and b: "n * int ratio < 2 ^ 31"
  shows "\<exists>i < nat n. sint (ucast ((w mod word_of_int n) * word_of_nat ratio) :: 32 word) = int (i * ratio)"
proof -
  define m where "m = nat n"
  have m: "0 < m" "int m = n" using n by (simp_all add: m_def)
  have "int (m * ratio) < 2 ^ 31" using b m by simp
  then have mr: "m * ratio < 2 ^ 31" by (rule nat_less_of_int_less)
  have mlt: "m < 2 ^ 31" using r mr by (rule factor_less)
  have "ratio * m < 2 ^ 31" using mr by (simp add: mult.commute)
  with m(1) have rlt: "ratio < 2 ^ 31" by (rule factor_less)
  have "(word_of_int n :: 64 word) = of_nat (nat n)" by (rule word_of_int_nat) (use n in simp)
  then have wn: "(word_of_int n :: 64 word) = of_nat m" by (simp only: m_def)
  have um: "unat (of_nat m :: 64 word) = m" using mlt by (rule unat_of_nat64)
  have ur: "unat (of_nat ratio :: 64 word) = ratio" using rlt by (rule unat_of_nat64)
  define i where "i = unat w mod m"
  have i: "i < m" using m by (simp add: i_def)
  have ui: "unat (w mod of_nat m) = i" by (simp add: unat_mod um i_def)
  have ir: "i * ratio < 2 ^ 31" using i mr by (rule slot_less)
  have "unat (w mod of_nat m) * unat (of_nat ratio :: 64 word) < 2 ^ LENGTH(64)"
    using ir by (simp add: ui ur)
  then have "unat ((w mod of_nat m) * of_nat ratio :: 64 word) = i * ratio"
    using unat_mult_lem[of "w mod of_nat m" "of_nat ratio :: 64 word"] by (simp add: ui ur)
  with ir have "sint (ucast ((w mod of_nat m) * of_nat ratio :: 64 word) :: 32 word) = int (i * ratio)"
    by (rule sint_ucast_small)
  with i show ?thesis unfolding wn m_def[symmetric] by blast
qed

lemma next_slot:
  assumes "i < n" "int n * int ratio < 2 ^ 31"
  shows "to_int (int (i * ratio) + int ratio) = int (Suc i * ratio)"
proof -
  have "int (Suc i * ratio) \<le> int n * int ratio"
    using assms(1) by (metis Suc_leI mult_le_mono1 of_nat_le_iff of_nat_mult)
  then have "int (i * ratio) + int ratio < 2 ^ 31" using assms(2) by simp
  moreover have "0 \<le> int (i * ratio) + int ratio" by simp
  then have "- (2 ^ 31) \<le> int (i * ratio) + int ratio" by (rule order_trans[rotated]) simp
  ultimately show ?thesis by (simp add: to_int_id)
qed

lemma slot_in_range:
  assumes "i < n" "0 < ratio"
  shows "i * ratio < n * (ratio::nat)"
  using assms by (rule mult_less_mono1)

subsection \<open>One pass over a counter array\<close>

lemma readIndicatorIsEmpty_loop_scan:
  assumes r: "0 < ratio" and b: "int n * int ratio < 2 ^ 31"
    and len: "len = int n * int ratio" and l: "length arr = n * ratio"
  shows "i \<le> n \<Longrightarrow>
     (readIndicatorIsEmpty_loop ratio len a arr (int (i * ratio)) :: (bool, 'k) res)
       = Some (Inr (scan_from a arr (map (\<lambda>j. j * ratio) [i..<n])))"
proof (induction "n - i" arbitrary: i)
  case 0
  then have "i = n" by simp
  then show ?case
    by (subst readIndicatorIsEmpty_loop.simps) (simp add: len ret_def)
next
  case (Suc d)
  then have i: "i < n" by simp
  have IH: "(readIndicatorIsEmpty_loop ratio len a arr (int (Suc i * ratio)) :: (bool, 'k) res)
           = Some (Inr (scan_from a arr (map (\<lambda>j. j * ratio) [Suc i..<n])))"
  proof (rule Suc.hyps(1))
    show "d = n - Suc i" using Suc.hyps(2) by simp
    show "Suc i \<le> n" using i by simp
  qed
  have lt: "int (i * ratio) < len" using slot_in_range[OF i r] by (simp add: len flip: of_nat_mult)
  have lt2: "i * ratio < length arr" using slot_in_range[OF i r] by (simp add: l)
  have nx: "to_int (int (i * ratio) + int ratio) = int (Suc i * ratio)"
    using i b by (rule next_slot)
  have up: "[i..<n] = i # [Suc i..<n]" using i by (simp add: upt_conv_Cons)
  show ?case
    apply (subst readIndicatorIsEmpty_loop.simps)
    apply (simp only: lt lt2 nx IH up if_True nat_int of_nat_0_le_iff simp_thms)
    apply (simp add: bind_def emit_def ret_def case_prod_beta)
    done
qed

lemma scan_from_zero:
  "list_all (\<lambda>i. arr ! i = 0) is \<Longrightarrow>
     scan_from a arr is = (True, map (\<lambda>i. CounterLoad a (int i) 0) is)"
  by (induction "is") auto

lemma scan_from_fst: "fst (scan_from a arr is) \<longleftrightarrow> list_all (\<lambda>i. arr ! i = 0) is"
  by (induction "is") auto


lemma readIndicatorIsEmpty_scan_from:
  assumes "wellformed ratio s"
  shows "readIndicatorIsEmpty ratio v s =
     Some (Inr (if v = 0 then scan_from 0 (readersVersion0 s) (slots ratio (numCores s))
                else scan_from 1 (readersVersion1 s) (slots ratio (numCores s))))"
proof -
  define n where "n = nat (numCores s)"
  have n: "numCores s = int n" using assms by (simp add: wellformed_def n_def)
  have r: "0 < ratio" and b: "int n * int ratio < 2 ^ 31"
    and len: "readersLength s = int n * int ratio"
    and l0: "length (readersVersion0 s) = n * ratio"
    and l1: "length (readersVersion1 s) = n * ratio"
    using assms by (simp_all add: wellformed_def n nat_mult_distrib flip: of_nat_mult)
  show ?thesis
    by (simp add: readIndicatorIsEmpty_def slots_def n
          readIndicatorIsEmpty_loop_scan[OF r b len l0, of 0, simplified]
          readIndicatorIsEmpty_loop_scan[OF r b len l1, of 0, simplified])
qed

lemma readIndicatorIsEmpty_quiescent:
  assumes "wellformed ratio s" "quiescent ratio s"
  shows "readIndicatorIsEmpty ratio v s =
     Some (Inr (True, scan (if v = 0 then 0 else 1) ratio (numCores s)))"
proof -
  have "list_all (\<lambda>i. readersVersion0 s ! i = 0) (slots ratio (numCores s))"
       "list_all (\<lambda>i. readersVersion1 s ! i = 0) (slots ratio (numCores s))"
    using assms(2) by (simp_all add: quiescent_def list_all_iff)
  then show ?thesis
    by (simp add: readIndicatorIsEmpty_scan_from[OF assms(1)] scan_from_zero scan_def)
qed

subsection \<open>The version toggle when no reader is present\<close>

lemma toggleVersionAndWait_loop_empty:
  assumes "readIndicatorIsEmpty ratio v s = Some (Inr (True, t))"
  shows "toggleVersionAndWait_loop ratio v s = Some (Inr ((), t))"
  by (subst toggleVersionAndWait_loop.simps) (simp add: assms bind_def ret_def)

lemma toggleVersionAndWait_quiescent:
  assumes w: "wellformed ratio s" and q: "quiescent ratio s"
  shows "toggleVersionAndWait ratio s =
     Some (Inr (s\<lparr>versionIndex := 1 - versionIndex s\<rparr>, toggle_events ratio s))"
proof -
  define s' where "s' = s\<lparr>versionIndex := 1 - versionIndex s\<rparr>"
  have v: "versionIndex s = 0 \<or> versionIndex s = 1" using w by (simp add: wellformed_def)
  have w': "wellformed ratio s'" using w by (auto simp: wellformed_def s'_def)
  have q': "quiescent ratio s'" using q by (simp add: quiescent_def s'_def)
  have nx: "(versionIndex s + 1) smod 2 = 1 - versionIndex s"
    using v by (auto simp: signed_modulo_int_def)
  have pv: "versionIndex s smod 2 = versionIndex s"
    using v by (auto simp: signed_modulo_int_def)
  have 1: "toggleVersionAndWait_loop ratio (1 - versionIndex s) s
        = Some (Inr ((), scan (1 - versionIndex s) ratio (numCores s)))"
    using v readIndicatorIsEmpty_quiescent[OF w q, of "1 - versionIndex s"]
    by (auto intro!: toggleVersionAndWait_loop_empty)
  have 2: "toggleVersionAndWait_loop ratio (versionIndex s) s'
        = Some (Inr ((), scan (versionIndex s) ratio (numCores s)))"
    using v readIndicatorIsEmpty_quiescent[OF w' q', of "versionIndex s"]
    by (auto intro!: toggleVersionAndWait_loop_empty simp: s'_def)
  show ?thesis
    by (simp add: toggleVersionAndWait_def toggle_events_def Let_def nx pv 1 2
          bind_def emit_def ret_def flip: s'_def)
qed

subsection \<open>The constructor\<close>

lemma length_zero_slots [simp]: "length (zero_slots is arr) = length arr"
  by (induction "is" arbitrary: arr) (simp_all add: zero_slots_def)

lemma zero_slots_Cons: "zero_slots (i # is) arr = zero_slots is (arr[i := 0])"
  by (simp add: zero_slots_def)

lemma zero_slots_nth:
  "j < length arr \<Longrightarrow> zero_slots is arr ! j = (if j \<in> set is then 0 else arr ! j)"
  by (induction "is" arbitrary: arr) (auto simp: zero_slots_def nth_list_update)

lemma LROrderedLinkedList_loop_stores:
  assumes r: "0 < ratio" and b: "int n * int ratio < 2 ^ 31" and len: "len = int n * int ratio"
  shows "i \<le> n \<Longrightarrow> length arr0 = n * ratio \<Longrightarrow> length arr1 = n * ratio \<Longrightarrow>
     (LROrderedLinkedList_loop ratio len arr0 arr1 (int (i * ratio))
        :: (32 word list \<times> 32 word list, 'k) res)
       = Some (Inr ((zero_slots (map (\<lambda>j. j * ratio) [i..<n]) arr0,
                     zero_slots (map (\<lambda>j. j * ratio) [i..<n]) arr1),
                    init_stores (map (\<lambda>j. j * ratio) [i..<n])))"
proof (induction "n - i" arbitrary: i arr0 arr1)
  case 0
  then have "i = n" by simp
  then show ?case
    by (subst LROrderedLinkedList_loop.simps) (simp add: len ret_def zero_slots_def init_stores_def)
next
  case (Suc d)
  then have i: "i < n" by simp
  let ?is = "map (\<lambda>j. j * ratio) [Suc i..<n]"
  have IH: "(LROrderedLinkedList_loop ratio len (arr0[i * ratio := 0]) (arr1[i * ratio := 0])
               (int (Suc i * ratio)) :: (32 word list \<times> 32 word list, 'k) res)
           = Some (Inr ((zero_slots ?is (arr0[i * ratio := 0]), zero_slots ?is (arr1[i * ratio := 0])),
                        init_stores ?is))"
  proof (rule Suc.hyps(1))
    show "d = n - Suc i" using Suc.hyps(2) by simp
    show "Suc i \<le> n" using i by simp
    show "length (arr0[i * ratio := 0]) = n * ratio" using Suc.prems by simp
    show "length (arr1[i * ratio := 0]) = n * ratio" using Suc.prems by simp
  qed
  have lt: "int (i * ratio) < len" using slot_in_range[OF i r] by (simp add: len flip: of_nat_mult)
  have lt0: "i * ratio < length arr0" using slot_in_range[OF i r] Suc.prems by simp
  have lt1: "i * ratio < length arr1" using slot_in_range[OF i r] Suc.prems by simp
  have nx: "to_int (int (i * ratio) + int ratio) = int (Suc i * ratio)"
    using i b by (rule next_slot)
  have up: "[i..<n] = i # [Suc i..<n]" using i by (simp add: upt_conv_Cons)
  show ?case
    apply (subst LROrderedLinkedList_loop.simps)
    apply (simp only: lt lt0 lt1 nx up if_True nat_int of_nat_0_le_iff simp_thms)
    apply (simp only: bind_def emit_def option.case sum.case prod.case)
    apply (simp only: IH)
    apply (simp add: zero_slots_Cons init_stores_def del: of_nat_mult)
    done
qed

lemma LROrderedLinkedList_valid:
  assumes "valid_config default_cores ratio hw"
  shows "LROrderedLinkedList default_cores ratio hw junk0 junk1 =
     Some (Inr (\<lparr>set1 = {}, set2 = {}, leftRight = READS_ON_LEFT, versionIndex = 0,
        readersVersion0 = zero_slots (slots ratio (core_count default_cores hw))
           (map junk0 [0..<nat (core_count default_cores hw * int ratio)]),
        readersVersion1 = zero_slots (slots ratio (core_count default_cores hw))
           (map junk1 [0..<nat (core_count default_cores hw * int ratio)]),
        writersMutex = False, numCores = core_count default_cores hw,
        readersLength = core_count default_cores hw * int ratio\<rparr>,
       [LeftRightStore READS_ON_LEFT, VersionIndexStore 0]
         @ init_stores (slots ratio (core_count default_cores hw))))"
proof -
  define c where "c = core_count default_cores hw"
  define n where "n = nat c"
  have r: "0 < ratio" and c0: "0 < c" and cb: "c * int ratio < 2 ^ 31"
    using assms by (simp_all add: valid_config_def c_def core_count_def)
  have n: "c = int n" using c0 by (simp add: n_def)
  have b: "int n * int ratio < 2 ^ 31" using cb by (simp add: n)
  have "(0::int) \<le> int n * int ratio" by simp
  then have "- (2 ^ 31) \<le> int n * int ratio" by (rule order_trans[rotated]) simp
  then have ti: "to_int (int n * int ratio) = int n * int ratio"
    using b by (rule to_int_id)
  have nl: "nat (int n * int ratio) = n * ratio" by (simp add: nat_mult_distrib)
  have cc: "core_count default_cores hw = int n" using n by (simp add: c_def)
  have ci: "(if sint hw = 0 then default_cores else sint hw) = int n"
    using cc by (simp add: core_count_def)
  have loop: "(LROrderedLinkedList_loop ratio (int n * int ratio) (map junk0 [0..<n * ratio])
           (map junk1 [0..<n * ratio]) 0 :: (32 word list \<times> 32 word list, 'k) res) =
       Some (Inr ((zero_slots (map (\<lambda>j. j * ratio) [0..<n]) (map junk0 [0..<n * ratio]),
                   zero_slots (map (\<lambda>j. j * ratio) [0..<n]) (map junk1 [0..<n * ratio])),
                  init_stores (map (\<lambda>j. j * ratio) [0..<n])))"
    using LROrderedLinkedList_loop_stores[OF r b refl, of 0 "map junk0 [0..<n * ratio]"
        "map junk1 [0..<n * ratio]"] by simp
  have nn: "\<not> int n * int ratio < 0" by (simp flip: of_nat_mult)
  show ?thesis
    unfolding LROrderedLinkedList_def Let_def cc ci ti nl
    by (simp only: nn if_False loop slots_def nat_int)
       (simp add: bind_def emit_def ret_def)
qed

lemma slots_members: "j \<in> set (slots ratio c) \<longleftrightarrow> (\<exists>i < nat c. j = i * ratio)"
  by (auto simp: slots_def)

lemma LROrderedLinkedList_at_rest:
  assumes v: "valid_config default_cores ratio hw"
  shows "\<exists>s0 t0. LROrderedLinkedList default_cores ratio hw junk0 junk1 = Some (Inr (s0, t0)) \<and>
           at_rest ratio s0 \<and> set1 s0 = {} \<and> numCores s0 = core_count default_cores hw \<and>
           t0 = [LeftRightStore READS_ON_LEFT, VersionIndexStore 0]
                  @ init_stores (slots ratio (core_count default_cores hw))"
proof -
  define c where "c = core_count default_cores hw"
  have r: "0 < ratio" and c0: "0 < c" and cb: "c * int ratio < 2 ^ 31"
    using v by (simp_all add: valid_config_def c_def)
  have nl: "nat (c * int ratio) = nat c * ratio" using c0 by (simp add: nat_mult_distrib)
  have z: "zero_slots (slots ratio c) (map junk [0..<nat (c * int ratio)]) ! j = 0"
    if "j \<in> set (slots ratio c)" for j and junk :: "nat \<Rightarrow> 32 word"
  proof -
    from that obtain i where i: "i < nat c" and j: "j = i * ratio" by (auto simp: slots_members)
    have "j < nat c * ratio" unfolding j using i r by (rule slot_in_range)
    then show ?thesis using that by (simp add: zero_slots_nth nl)
  qed
  show ?thesis
    unfolding LROrderedLinkedList_valid[OF v] c_def[symmetric]
    using r c0 cb z
    by (simp add: at_rest_def wellformed_def quiescent_def list_all_iff)
qed

lemma LROrderedLinkedList_numCores:
  assumes "valid_config default_cores ratio hw"
  shows "map_option numCores
           (returned (LROrderedLinkedList default_cores ratio hw junk0 junk1 :: ('k lrstate, 'k) res))
         = Some (core_count default_cores hw)"
  unfolding LROrderedLinkedList_valid[OF assms] by (simp add: returned_def)

subsection \<open>The read indicator and \<^verbatim>\<open>contains\<close>\<close>

lemma thread_2_tid_slot:
  assumes "wellformed ratio s"
  shows "\<exists>i < nat (numCores s). thread_2_tid ratio h s = Some (Inr (int (i * ratio), []))"
proof -
  have r: "0 < ratio" and n: "0 < numCores s" and b: "numCores s * int ratio < 2 ^ 31"
    using assms by (simp_all add: wellformed_def)
  have nz: "(word_of_int (numCores s) :: 64 word) \<noteq> 0"
  proof -
    have "nat (numCores s) * ratio < 2 ^ 31"
      using b n by (intro nat_less_of_int_less) (simp add: nat_mult_distrib)
    with r have lt: "nat (numCores s) < 2 ^ 31" by (rule factor_less)
    have "(word_of_int (numCores s) :: 64 word) = of_nat (nat (numCores s))"
      by (rule word_of_int_nat) (use n in simp)
    moreover have "unat (of_nat (nat (numCores s)) :: 64 word) = nat (numCores s)"
      using lt by (rule unat_of_nat64)
    ultimately have "unat (word_of_int (numCores s) :: 64 word) = nat (numCores s)" by simp
    with n show ?thesis by (metis unat_0 nat_0_iff not_less order_refl zero_less_nat_eq)
  qed
  show ?thesis
    using slot_word[OF r n b] nz
    by (simp add: thread_2_tid_def Let_def ret_def)
qed

lemma slot_bounds:
  assumes "wellformed ratio s" "i < nat (numCores s)"
  shows "i * ratio < length (readersVersion0 s)" "i * ratio < length (readersVersion1 s)"
    "int (i * ratio) < readersLength s"
proof -
  have "i * ratio < nat (numCores s) * ratio"
    using assms by (intro slot_in_range) (simp_all add: wellformed_def)
  moreover have "nat (numCores s * int ratio) = nat (numCores s) * ratio"
    using assms(1) by (simp add: wellformed_def nat_mult_distrib)
  ultimately show "i * ratio < length (readersVersion0 s)" "i * ratio < length (readersVersion1 s)"
    "int (i * ratio) < readersLength s"
    using assms by (auto simp: wellformed_def)
qed

lemma counter_fetch_add_in_range:
  "i < length arr \<Longrightarrow>
     counter_fetch_add a arr (int i) d = Some (Inr (arr[i := arr ! i + d], [CounterFetchAdd a (int i) d]))"
  by (simp add: counter_fetch_add_def emit_def)

lemma readIndicatorArrive_slot:
  assumes "wellformed ratio s" "i < nat (numCores s)"
  shows "readIndicatorArrive (int (i * ratio)) s =
     Some (Inr ((versionIndex s,
        if versionIndex s = 0
        then s\<lparr>readersVersion0 := (readersVersion0 s)[i * ratio := readersVersion0 s ! (i * ratio) + 1]\<rparr>
        else s\<lparr>readersVersion1 := (readersVersion1 s)[i * ratio := readersVersion1 s ! (i * ratio) + 1]\<rparr>),
       [VersionIndexLoad (versionIndex s),
        CounterFetchAdd (versionIndex s) (int (i * ratio)) 1]))"
proof -
  have v: "versionIndex s = 0 \<or> versionIndex s = 1" using assms(1) by (simp add: wellformed_def)
  show ?thesis
    using v slot_bounds(1,2)[OF assms]
    by (auto simp: readIndicatorArrive_def counter_fetch_add_in_range bind_def emit_def ret_def
          simp del: of_nat_mult)
qed

lemma readIndicatorDepart_slot:
  assumes "wellformed ratio s" "i < nat (numCores s)" "v = 0 \<or> v = 1"
  shows "readIndicatorDepart (int (i * ratio)) v s =
     Some (Inr ((if v = 0
        then s\<lparr>readersVersion0 := (readersVersion0 s)[i * ratio := readersVersion0 s ! (i * ratio) - 1]\<rparr>
        else s\<lparr>readersVersion1 := (readersVersion1 s)[i * ratio := readersVersion1 s ! (i * ratio) - 1]\<rparr>),
       [CounterFetchAdd v (int (i * ratio)) (- 1)]))"
  using assms(3) slot_bounds(1,2)[OF assms(1,2)]
  by (auto simp: readIndicatorDepart_def counter_fetch_add_in_range bind_def emit_def ret_def
        simp del: of_nat_mult)

lemma readIndicatorDepart_any:
  assumes "wellformed ratio s" "i < nat (numCores s)"
  shows "readIndicatorDepart (int (i * ratio)) epoch s =
     Some (Inr ((if epoch = 0
        then s\<lparr>readersVersion0 := (readersVersion0 s)[i * ratio := readersVersion0 s ! (i * ratio) - 1]\<rparr>
        else s\<lparr>readersVersion1 := (readersVersion1 s)[i * ratio := readersVersion1 s ! (i * ratio) - 1]\<rparr>),
       [CounterFetchAdd (if epoch = 0 then 0 else 1) (int (i * ratio)) (- 1)]))"
  using slot_bounds(1,2)[OF assms]
  by (auto simp: readIndicatorDepart_def counter_fetch_add_in_range bind_def emit_def ret_def
        simp del: of_nat_mult)

lemma wellformed_counters:
  "wellformed ratio s \<Longrightarrow> length arr = length (readersVersion0 s) \<Longrightarrow>
     wellformed ratio (s\<lparr>readersVersion0 := arr\<rparr>)"
  "wellformed ratio s \<Longrightarrow> length arr = length (readersVersion1 s) \<Longrightarrow>
     wellformed ratio (s\<lparr>readersVersion1 := arr\<rparr>)"
  by (simp_all add: wellformed_def)

lemma contains_slot:
  assumes w: "wellformed ratio s" and i: "i < nat (numCores s)"
    and t: "thread_2_tid ratio h s = Some (Inr (int (i * ratio), []))"
  shows "contains ratio key h s =
     Some (Inr ((if leftRight s = READS_ON_LEFT then key \<in> set1 s else key \<in> set2 s, s),
       [VersionIndexLoad (versionIndex s),
        CounterFetchAdd (versionIndex s) (int (i * ratio)) 1,
        LeftRightLoad (leftRight s),
        SetContains (if leftRight s = READS_ON_LEFT then 1 else 2) key
          (if leftRight s = READS_ON_LEFT then key \<in> set1 s else key \<in> set2 s),
        CounterFetchAdd (versionIndex s) (int (i * ratio)) (- 1)]))"
proof -
  have v: "versionIndex s = 0 \<or> versionIndex s = 1" using w by (simp add: wellformed_def)
  define s1 where "s1 = (if versionIndex s = 0
        then s\<lparr>readersVersion0 := (readersVersion0 s)[i * ratio := readersVersion0 s ! (i * ratio) + 1]\<rparr>
        else s\<lparr>readersVersion1 := (readersVersion1 s)[i * ratio := readersVersion1 s ! (i * ratio) + 1]\<rparr>)"
  have w1: "wellformed ratio s1" using w by (simp add: s1_def wellformed_counters)
  have i1: "i < nat (numCores s1)" using i by (simp add: s1_def)
  have a: "readIndicatorArrive (int (i * ratio)) s =
     Some (Inr ((versionIndex s, s1), [VersionIndexLoad (versionIndex s),
        CounterFetchAdd (versionIndex s) (int (i * ratio)) 1]))"
    unfolding s1_def by (rule readIndicatorArrive_slot[OF w i])
  have rt: "(if versionIndex s = 0
        then s1\<lparr>readersVersion0 := (readersVersion0 s1)[i * ratio := readersVersion0 s1 ! (i * ratio) - 1]\<rparr>
        else s1\<lparr>readersVersion1 := (readersVersion1 s1)[i * ratio := readersVersion1 s1 ! (i * ratio) - 1]\<rparr>) = s"
    using slot_bounds(1,2)[OF w i] by (simp add: s1_def)
  have d: "readIndicatorDepart (int (i * ratio)) (versionIndex s) s1 =
     Some (Inr (s, [CounterFetchAdd (versionIndex s) (int (i * ratio)) (- 1)]))"
    using readIndicatorDepart_slot[OF w1 i1 v] by (simp only: rt)
  have f: "leftRight s1 = leftRight s" "set1 s1 = set1 s" "set2 s1 = set2 s"
    by (simp_all add: s1_def)
  show ?thesis
    by (simp add: contains_def t a d f bind_def emit_def ret_def set1_contains_def
          set2_contains_def LinkedListSet_contains_def Let_def del: of_nat_mult)
qed

subsection \<open>The two writers\<close>

lemma unlock_idle: "\<not> writersMutex s \<Longrightarrow> s\<lparr>writersMutex := False\<rparr> = s"
  by simp

lemma wellformed_frame:
  "wellformed ratio (s\<lparr>set1 := A\<rparr>) = wellformed ratio s"
  "wellformed ratio (s\<lparr>set2 := B\<rparr>) = wellformed ratio s"
  "wellformed ratio (s\<lparr>leftRight := lr\<rparr>) = wellformed ratio s"
  "wellformed ratio (s\<lparr>writersMutex := m\<rparr>) = wellformed ratio s"
  by (simp_all add: wellformed_def)

lemma quiescent_frame:
  "quiescent ratio (s\<lparr>set1 := A\<rparr>) = quiescent ratio s"
  "quiescent ratio (s\<lparr>set2 := B\<rparr>) = quiescent ratio s"
  "quiescent ratio (s\<lparr>leftRight := lr\<rparr>) = quiescent ratio s"
  "quiescent ratio (s\<lparr>writersMutex := m\<rparr>) = quiescent ratio s"
  "quiescent ratio (s\<lparr>versionIndex := v\<rparr>) = quiescent ratio s"
  by (simp_all add: quiescent_def)

lemma toggle_events_frame:
  "toggle_events ratio (s\<lparr>set1 := A\<rparr>) = toggle_events ratio s"
  "toggle_events ratio (s\<lparr>set2 := B\<rparr>) = toggle_events ratio s"
  "toggle_events ratio (s\<lparr>leftRight := lr\<rparr>) = toggle_events ratio s"
  "toggle_events ratio (s\<lparr>writersMutex := m\<rparr>) = toggle_events ratio s"
  by (simp_all add: toggle_events_def)

lemma add_present:
  assumes "\<not> writersMutex s"
    and "if leftRight s = READS_ON_LEFT then key \<in> set2 s else key \<in> set1 s"
  shows "add ratio key s =
     Some (Inr ((False, s),
       [MutexLock, LeftRightLoad (leftRight s),
        SetAdd (if leftRight s = READS_ON_LEFT then 2 else 1) key False, MutexUnlock]))"
  using assms
  by (auto simp: add_def mutex_lock_def mutex_unlock_def set1_add_def set2_add_def
        LinkedListSet_add_def bind_def emit_def ret_def split: if_splits)

lemma add_absent:
  assumes w: "wellformed ratio s" and q: "quiescent ratio s" and m: "\<not> writersMutex s"
    and k: "if leftRight s = READS_ON_LEFT then key \<notin> set2 s else key \<notin> set1 s"
  shows "add ratio key s =
     Some (Inr ((True,
        s\<lparr>set1 := insert key (set1 s), set2 := insert key (set2 s),
          leftRight := (if leftRight s = READS_ON_LEFT then READS_ON_RIGHT else READS_ON_LEFT),
          versionIndex := 1 - versionIndex s\<rparr>),
       [MutexLock, LeftRightLoad (leftRight s),
        SetAdd (if leftRight s = READS_ON_LEFT then 2 else 1) key True,
        LeftRightStore (if leftRight s = READS_ON_LEFT then READS_ON_RIGHT else READS_ON_LEFT)]
       @ toggle_events ratio s @
       [SetAdd (if leftRight s = READS_ON_LEFT then 1 else 2) key
          (if leftRight s = READS_ON_LEFT then key \<notin> set1 s else key \<notin> set2 s),
        MutexUnlock]))"
proof (cases "leftRight s = READS_ON_LEFT")
  case True
  define s2 where "s2 = s\<lparr>writersMutex := True, set2 := insert key (set2 s), leftRight := READS_ON_RIGHT\<rparr>"
  have t: "toggleVersionAndWait ratio s2 =
     Some (Inr (s2\<lparr>versionIndex := 1 - versionIndex s2\<rparr>, toggle_events ratio s2))"
    by (rule toggleVersionAndWait_quiescent) (simp_all add: s2_def wellformed_frame quiescent_frame w q)
  show ?thesis
    using True k m t
    by (simp add: add_def mutex_lock_def mutex_unlock_def set1_add_def set2_add_def
        LinkedListSet_add_def bind_def emit_def ret_def s2_def toggle_events_frame insert_absorb)
next
  case False
  define s2 where "s2 = s\<lparr>writersMutex := True, set1 := insert key (set1 s), leftRight := READS_ON_LEFT\<rparr>"
  have t: "toggleVersionAndWait ratio s2 =
     Some (Inr (s2\<lparr>versionIndex := 1 - versionIndex s2\<rparr>, toggle_events ratio s2))"
    by (rule toggleVersionAndWait_quiescent) (simp_all add: s2_def wellformed_frame quiescent_frame w q)
  show ?thesis
    using False k m t
    by (simp add: add_def mutex_lock_def mutex_unlock_def set1_add_def set2_add_def
        LinkedListSet_add_def bind_def emit_def ret_def s2_def toggle_events_frame insert_absorb)
qed

lemma remove_absent:
  assumes "\<not> writersMutex s"
    and "if leftRight s = READS_ON_LEFT then key \<notin> set2 s else key \<notin> set1 s"
  shows "remove ratio key s =
     Some (Inr ((False, s),
       [MutexLock, LeftRightLoad (leftRight s),
        SetRemove (if leftRight s = READS_ON_LEFT then 2 else 1) key False, MutexUnlock]))"
  using assms
  by (auto simp: remove_def mutex_lock_def mutex_unlock_def set1_remove_def set2_remove_def
        LinkedListSet_remove_def bind_def emit_def ret_def split: if_splits)

lemma remove_present:
  assumes w: "wellformed ratio s" and q: "quiescent ratio s" and m: "\<not> writersMutex s"
    and k: "if leftRight s = READS_ON_LEFT then key \<in> set2 s else key \<in> set1 s"
  shows "remove ratio key s =
     Some (Inr ((True,
        s\<lparr>set1 := set1 s - {key}, set2 := set2 s - {key},
          leftRight := (if leftRight s = READS_ON_LEFT then READS_ON_RIGHT else READS_ON_LEFT),
          versionIndex := 1 - versionIndex s\<rparr>),
       [MutexLock, LeftRightLoad (leftRight s),
        SetRemove (if leftRight s = READS_ON_LEFT then 2 else 1) key True,
        LeftRightStore (if leftRight s = READS_ON_LEFT then READS_ON_RIGHT else READS_ON_LEFT)]
       @ toggle_events ratio s @
       [SetRemove (if leftRight s = READS_ON_LEFT then 1 else 2) key
          (if leftRight s = READS_ON_LEFT then key \<in> set1 s else key \<in> set2 s),
        MutexUnlock]))"
proof (cases "leftRight s = READS_ON_LEFT")
  case True
  define s2 where "s2 = s\<lparr>writersMutex := True, set2 := set2 s - {key}, leftRight := READS_ON_RIGHT\<rparr>"
  have t: "toggleVersionAndWait ratio s2 =
     Some (Inr (s2\<lparr>versionIndex := 1 - versionIndex s2\<rparr>, toggle_events ratio s2))"
    by (rule toggleVersionAndWait_quiescent) (simp_all add: s2_def wellformed_frame quiescent_frame w q)
  show ?thesis
    using True k m t
    by (simp add: remove_def mutex_lock_def mutex_unlock_def set1_remove_def set2_remove_def
        LinkedListSet_remove_def bind_def emit_def ret_def s2_def toggle_events_frame)
next
  case False
  define s2 where "s2 = s\<lparr>writersMutex := True, set1 := set1 s - {key}, leftRight := READS_ON_LEFT\<rparr>"
  have t: "toggleVersionAndWait ratio s2 =
     Some (Inr (s2\<lparr>versionIndex := 1 - versionIndex s2\<rparr>, toggle_events ratio s2))"
    by (rule toggleVersionAndWait_quiescent) (simp_all add: s2_def wellformed_frame quiescent_frame w q)
  show ?thesis
    using False k m t
    by (simp add: remove_def mutex_lock_def mutex_unlock_def set1_remove_def set2_remove_def
        LinkedListSet_remove_def bind_def emit_def ret_def s2_def toggle_events_frame)
qed

subsection \<open>A run of calls against the plain set\<close>

lemma invoke_plain_set:
  assumes "at_rest ratio s"
  shows "\<exists>s' t. invoke ratio h c s = Some (Inr ((fst (plain_set c (set1 s)), s'), t)) \<and>
           at_rest ratio s' \<and> set1 s' = snd (plain_set c (set1 s))"
proof -
  have w: "wellformed ratio s" and q: "quiescent ratio s" and m: "\<not> writersMutex s"
    and e: "set2 s = set1 s"
    using assms by (simp_all add: at_rest_def)
  show ?thesis
  proof (cases c)
    case (Add key)
    show ?thesis
    proof (cases "key \<in> set1 s")
      case True
      then show ?thesis
        using add_present[of s key ratio] m e assms by (simp add: invoke_def Add insert_absorb)
    next
      case False
      then show ?thesis
        using add_absent[OF w q m, of key] e w q m
        by (auto simp: invoke_def Add at_rest_def wellformed_def quiescent_def)
    qed
  next
    case (Remove key)
    show ?thesis
    proof (cases "key \<in> set1 s")
      case False
      then show ?thesis
        using remove_absent[of s key ratio] m e assms by (simp add: invoke_def Remove)
    next
      case True
      then show ?thesis
        using remove_present[OF w q m, of key] e w q m
        by (auto simp: invoke_def Remove at_rest_def wellformed_def quiescent_def)
    qed
  next
    case (Contains key)
    obtain i where i: "i < nat (numCores s)"
      and t: "thread_2_tid ratio h s = Some (Inr (int (i * ratio), []))"
      using thread_2_tid_slot[OF w, of h] by blast
    show ?thesis
      using contains_slot[OF w i t, of key] e assms by (simp add: invoke_def Contains)
  qed
qed

lemma run_plain_set:
  "at_rest ratio s \<Longrightarrow>
     \<exists>s' t. run ratio h cs s = Some (Inr ((plain_set_run cs (set1 s), s'), t)) \<and> at_rest ratio s'"
proof (induction cs arbitrary: s)
  case Nil
  then show ?case by (simp add: ret_def)
next
  case (Cons c cs)
  obtain s1 t1 where 1: "invoke ratio h c s = Some (Inr ((fst (plain_set c (set1 s)), s1), t1))"
    and r1: "at_rest ratio s1" and e1: "set1 s1 = snd (plain_set c (set1 s))"
    using invoke_plain_set[OF Cons.prems, of h c] by blast
  obtain s2 t2 where 2: "run ratio h cs s1 = Some (Inr ((plain_set_run cs (set1 s1), s2), t2))"
    and r2: "at_rest ratio s2"
    using Cons.IH[OF r1] by blast
  show ?case
    using r2 by (simp add: 1 2 e1 bind_def ret_def)
qed

subsection \<open>Every outcome of the version toggle leaves the mirrors alone\<close>

lemma bind_eq_Inr:
  assumes "bind m f = Some (Inr (y, t))"
  obtains x t1 t2 where "m = Some (Inr (x, t1))" "f x = Some (Inr (y, t2))" "t = t1 @ t2"
  using assms by (auto simp: bind_def split: option.splits sum.splits)

lemma readIndicatorIsEmpty_loop_loads:
  assumes "readIndicatorIsEmpty_loop ratio len a arr tid = Some y"
  shows "\<forall>b t. y = Inr (b, t) \<longrightarrow> (\<forall>e \<in> set t. \<not> mutation e)"
proof (rule readIndicatorIsEmpty_loop.raw_induct
    [where P = "\<lambda>ratio len a arr tid y. \<forall>b t. y = Inr (b, t) \<longrightarrow> (\<forall>e \<in> set t. \<not> mutation e)",
      OF _ assms], goal_cases)
  case (1 loop ratio len a arr tid y)
  show ?case
  proof (intro allI impI)
    fix b t assume y: "y = Inr (b, t)"
    show "\<forall>e \<in> set t. \<not> mutation e"
    proof (cases "tid < len \<and> 0 \<le> tid \<and> nat tid < length arr")
      case False
      then show ?thesis using 1(2) y by (auto simp: ret_def fail_def split: if_splits)
    next
      case True
      then have "bind (emit (CounterLoad a tid (arr ! nat tid)) (arr ! nat tid))
                 (\<lambda>c. if c \<noteq> 0 then ret False else loop ratio len a arr (to_int (tid + int ratio)))
                 = Some (Inr (b, t))"
        using 1(2) y by simp
      then obtain c t1 t2 where e: "emit (CounterLoad a tid (arr ! nat tid)) (arr ! nat tid) = Some (Inr (c, t1))"
        and k: "(if c \<noteq> 0 then ret False else loop ratio len a arr (to_int (tid + int ratio))) = Some (Inr (b, t2))"
        and t: "t = t1 @ t2"
        by (rule bind_eq_Inr)
      have t1: "t1 = [CounterLoad a tid (arr ! nat tid)]" using e by (auto simp: emit_def)
      have "\<forall>e \<in> set t2. \<not> mutation e"
      proof (cases "c \<noteq> 0")
        case True
        then show ?thesis using k by (simp add: ret_def)
      next
        case False
        then have "loop ratio len a arr (to_int (tid + int ratio)) = Some (Inr (b, t2))" using k by simp
        from 1(1)[OF this] show ?thesis by simp
      qed
      then show ?thesis by (simp add: t t1 mutation_def)
    qed
  qed
qed

lemma readIndicatorIsEmpty_loads:
  "readIndicatorIsEmpty ratio v s = Some (Inr (b, t)) \<Longrightarrow> \<forall>e \<in> set t. \<not> mutation e"
  using readIndicatorIsEmpty_loop_loads by (fastforce simp: readIndicatorIsEmpty_def split: if_splits)

lemma toggleVersionAndWait_loop_quiet:
  assumes "toggleVersionAndWait_loop ratio v s = Some y"
  shows "\<forall>u t. y = Inr (u, t) \<longrightarrow> (\<forall>e \<in> set t. \<not> mutation e)"
proof (rule toggleVersionAndWait_loop.raw_induct
    [where P = "\<lambda>ratio v s y. \<forall>u t. y = Inr (u, t) \<longrightarrow> (\<forall>e \<in> set t. \<not> mutation e)",
      OF _ assms], goal_cases)
  case (1 loop ratio v s y)
  show ?case
  proof (intro allI impI)
    fix u t assume y: "y = Inr (u, t)"
    from 1(2) y obtain b t1 t2 where e: "readIndicatorIsEmpty ratio v s = Some (Inr (b, t1))"
      and k: "(if \<not> b then bind (emit Yield ()) (\<lambda>u. loop ratio v s) else ret ()) = Some (Inr (u, t2))"
      and t: "t = t1 @ t2"
      by (auto elim: bind_eq_Inr)
    have q1: "\<forall>e \<in> set t1. \<not> mutation e" using e by (rule readIndicatorIsEmpty_loads)
    have "\<forall>e \<in> set t2. \<not> mutation e"
    proof (cases b)
      case True
      then show ?thesis using k by (simp add: ret_def)
    next
      case False
      then have "bind (emit Yield ()) (\<lambda>u. loop ratio v s) = Some (Inr (u, t2))" using k by simp
      then obtain x t3 t4 where "emit Yield () = Some (Inr (x, t3))"
        and l: "loop ratio v s = Some (Inr (u, t4))" and t2: "t2 = t3 @ t4"
        by (rule bind_eq_Inr)
      then have "t3 = [Yield]" by (simp add: emit_def)
      moreover from 1(1)[OF l] have "\<forall>e \<in> set t4. \<not> mutation e" by simp
      ultimately show ?thesis by (simp add: t2 mutation_def)
    qed
    with q1 show "\<forall>e \<in> set t. \<not> mutation e" by (auto simp: t)
  qed
qed

lemma toggleVersionAndWait_frame:
  assumes "toggleVersionAndWait ratio s = Some (Inr (s', t))"
  shows "\<exists>v. s' = s\<lparr>versionIndex := v\<rparr>" and "\<forall>e \<in> set t. \<not> mutation e"
proof -
  let ?n = "(versionIndex s + 1) smod 2" and ?p = "versionIndex s smod 2"
  from assms obtain t1 t2 t3 u1 u2 where
    1: "toggleVersionAndWait_loop ratio ?n s = Some (Inr (u1, t1))" and
    2: "toggleVersionAndWait_loop ratio ?p (s\<lparr>versionIndex := ?n\<rparr>) = Some (Inr (u2, t2))" and
    s': "s' = s\<lparr>versionIndex := ?n\<rparr>" and
    t: "t = [VersionIndexLoad (versionIndex s)] @ t1 @ [VersionIndexStore ?n] @ t2"
    by (auto simp: toggleVersionAndWait_def Let_def emit_def ret_def elim!: bind_eq_Inr)
  show "\<exists>v. s' = s\<lparr>versionIndex := v\<rparr>" using s' by blast
  show "\<forall>e \<in> set t. \<not> mutation e"
    using toggleVersionAndWait_loop_quiet[OF 1] toggleVersionAndWait_loop_quiet[OF 2]
    by (auto simp: t mutation_def)
qed

subsection \<open>Every successful writer changes each mirror once\<close>

lemma add_True_shape:
  assumes "add ratio key s = Some (Inr ((True, s'), t))"
  shows "\<exists>tt.
     (\<forall>e \<in> set tt. \<not> mutation e) \<and>
     (if leftRight s = READS_ON_LEFT
      then key \<notin> set2 s \<and>
           t = [MutexLock, LeftRightLoad (leftRight s)] @ [SetAdd 2 key True]
               @ (LeftRightStore READS_ON_RIGHT # tt) @ [SetAdd 1 key (key \<notin> set1 s)] @ [MutexUnlock]
      else key \<notin> set1 s \<and>
           t = [MutexLock, LeftRightLoad (leftRight s)] @ [SetAdd 1 key True]
               @ (LeftRightStore READS_ON_LEFT # tt) @ [SetAdd 2 key (key \<notin> set2 s)] @ [MutexUnlock]) \<and>
     set1 s' = insert key (set1 s) \<and> set2 s' = insert key (set2 s)"
proof -
  have m: "\<not> writersMutex s" using assms by (auto simp: add_def mutex_lock_def bind_def)
  define s1 where "s1 = s\<lparr>writersMutex := True\<rparr>"
  show ?thesis
  proof (cases "leftRight s = READS_ON_LEFT")
    case True
    have k: "key \<notin> set2 s"
      using assms m True
      by (auto simp: add_def mutex_lock_def mutex_unlock_def set2_add_def LinkedListSet_add_def
            bind_def emit_def ret_def split: if_splits)
    define s2 where "s2 = s\<lparr>writersMutex := True, set2 := insert key (set2 s), leftRight := READS_ON_RIGHT\<rparr>"
    have "bind (toggleVersionAndWait ratio s2) (\<lambda>s.
             bind (set1_add key s) (\<lambda>(ignored, s).
             bind (mutex_unlock s) (\<lambda>s. ret (True, s))))
          = Some (Inr ((True, s'), drop 4 t))"
      using assms m True k
      by (auto simp: add_def mutex_lock_def set2_add_def LinkedListSet_add_def s2_def
            bind_def emit_def ret_def split: option.splits sum.splits)
    then obtain s3 tt t4 where tg: "toggleVersionAndWait ratio s2 = Some (Inr (s3, tt))"
      and rest: "bind (set1_add key s3) (\<lambda>(ignored, s). bind (mutex_unlock s) (\<lambda>s. ret (True, s)))
          = Some (Inr ((True, s'), t4))" and d: "drop 4 t = tt @ t4"
      by (rule bind_eq_Inr)
    have t4: "t = [MutexLock, LeftRightLoad (leftRight s), SetAdd 2 key True, LeftRightStore READS_ON_RIGHT] @ drop 4 t"
      using assms m True k
      by (auto simp: add_def mutex_lock_def set2_add_def LinkedListSet_add_def
            bind_def emit_def ret_def split: option.splits sum.splits)
    from toggleVersionAndWait_frame[OF tg] obtain v where s3: "s3 = s2\<lparr>versionIndex := v\<rparr>"
      and q: "\<forall>e \<in> set tt. \<not> mutation e" by blast
    have "s' = s3\<lparr>set1 := insert key (set1 s3), writersMutex := False\<rparr> \<and>
          t4 = [SetAdd 1 key (key \<notin> set1 s3), MutexUnlock]"
      using rest
      by (auto simp: set1_add_def LinkedListSet_add_def mutex_unlock_def bind_def emit_def ret_def
            insert_absorb split: if_splits)
    then show ?thesis
      using q k True t4 d by (intro exI[of _ tt]) (simp add: s3 s2_def)
  next
    case False
    have k: "key \<notin> set1 s"
      using assms m False
      by (auto simp: add_def mutex_lock_def mutex_unlock_def set1_add_def LinkedListSet_add_def
            bind_def emit_def ret_def split: if_splits)
    define s2 where "s2 = s\<lparr>writersMutex := True, set1 := insert key (set1 s), leftRight := READS_ON_LEFT\<rparr>"
    have "bind (toggleVersionAndWait ratio s2) (\<lambda>s.
             bind (set2_add key s) (\<lambda>(ignored, s).
             bind (mutex_unlock s) (\<lambda>s. ret (True, s))))
          = Some (Inr ((True, s'), drop 4 t))"
      using assms m False k
      by (auto simp: add_def mutex_lock_def set1_add_def LinkedListSet_add_def s2_def
            bind_def emit_def ret_def split: option.splits sum.splits)
    then obtain s3 tt t4 where tg: "toggleVersionAndWait ratio s2 = Some (Inr (s3, tt))"
      and rest: "bind (set2_add key s3) (\<lambda>(ignored, s). bind (mutex_unlock s) (\<lambda>s. ret (True, s)))
          = Some (Inr ((True, s'), t4))" and d: "drop 4 t = tt @ t4"
      by (rule bind_eq_Inr)
    have t4: "t = [MutexLock, LeftRightLoad (leftRight s), SetAdd 1 key True, LeftRightStore READS_ON_LEFT] @ drop 4 t"
      using assms m False k
      by (auto simp: add_def mutex_lock_def set1_add_def LinkedListSet_add_def
            bind_def emit_def ret_def split: option.splits sum.splits)
    from toggleVersionAndWait_frame[OF tg] obtain v where s3: "s3 = s2\<lparr>versionIndex := v\<rparr>"
      and q: "\<forall>e \<in> set tt. \<not> mutation e" by blast
    have "s' = s3\<lparr>set2 := insert key (set2 s3), writersMutex := False\<rparr> \<and>
          t4 = [SetAdd 2 key (key \<notin> set2 s3), MutexUnlock]"
      using rest
      by (auto simp: set2_add_def LinkedListSet_add_def mutex_unlock_def bind_def emit_def ret_def
            insert_absorb split: if_splits)
    then show ?thesis
      using q k False t4 d by (intro exI[of _ tt]) (simp add: s3 s2_def)
  qed
qed

lemma remove_True_shape:
  assumes "remove ratio key s = Some (Inr ((True, s'), t))"
  shows "\<exists>tt.
     (\<forall>e \<in> set tt. \<not> mutation e) \<and>
     (if leftRight s = READS_ON_LEFT
      then key \<in> set2 s \<and>
           t = [MutexLock, LeftRightLoad (leftRight s)] @ [SetRemove 2 key True]
               @ (LeftRightStore READS_ON_RIGHT # tt) @ [SetRemove 1 key (key \<in> set1 s)] @ [MutexUnlock]
      else key \<in> set1 s \<and>
           t = [MutexLock, LeftRightLoad (leftRight s)] @ [SetRemove 1 key True]
               @ (LeftRightStore READS_ON_LEFT # tt) @ [SetRemove 2 key (key \<in> set2 s)] @ [MutexUnlock]) \<and>
     set1 s' = set1 s - {key} \<and> set2 s' = set2 s - {key}"
proof -
  have m: "\<not> writersMutex s" using assms by (auto simp: remove_def mutex_lock_def bind_def)
  define s1 where "s1 = s\<lparr>writersMutex := True\<rparr>"
  show ?thesis
  proof (cases "leftRight s = READS_ON_LEFT")
    case True
    have k: "key \<in> set2 s"
      using assms m True
      by (auto simp: remove_def mutex_lock_def mutex_unlock_def set2_remove_def LinkedListSet_remove_def
            bind_def emit_def ret_def split: if_splits)
    define s2 where "s2 = s\<lparr>writersMutex := True, set2 := set2 s - {key}, leftRight := READS_ON_RIGHT\<rparr>"
    have "bind (toggleVersionAndWait ratio s2) (\<lambda>s.
             bind (set1_remove key s) (\<lambda>(ignored, s).
             bind (mutex_unlock s) (\<lambda>s. ret (True, s))))
          = Some (Inr ((True, s'), drop 4 t))"
      using assms m True k
      by (auto simp: remove_def mutex_lock_def set2_remove_def LinkedListSet_remove_def s2_def
            bind_def emit_def ret_def split: option.splits sum.splits)
    then obtain s3 tt t4 where tg: "toggleVersionAndWait ratio s2 = Some (Inr (s3, tt))"
      and rest: "bind (set1_remove key s3) (\<lambda>(ignored, s). bind (mutex_unlock s) (\<lambda>s. ret (True, s)))
          = Some (Inr ((True, s'), t4))" and d: "drop 4 t = tt @ t4"
      by (rule bind_eq_Inr)
    have t4: "t = [MutexLock, LeftRightLoad (leftRight s), SetRemove 2 key True, LeftRightStore READS_ON_RIGHT] @ drop 4 t"
      using assms m True k
      by (auto simp: remove_def mutex_lock_def set2_remove_def LinkedListSet_remove_def
            bind_def emit_def ret_def split: option.splits sum.splits)
    from toggleVersionAndWait_frame[OF tg] obtain v where s3: "s3 = s2\<lparr>versionIndex := v\<rparr>"
      and q: "\<forall>e \<in> set tt. \<not> mutation e" by blast
    have "s' = s3\<lparr>set1 := set1 s3 - {key}, writersMutex := False\<rparr> \<and>
          t4 = [SetRemove 1 key (key \<in> set1 s3), MutexUnlock]"
      using rest
      by (auto simp: set1_remove_def LinkedListSet_remove_def mutex_unlock_def bind_def emit_def ret_def
            insert_absorb split: if_splits)
    then show ?thesis
      using q k True t4 d by (intro exI[of _ tt]) (simp add: s3 s2_def)
  next
    case False
    have k: "key \<in> set1 s"
      using assms m False
      by (auto simp: remove_def mutex_lock_def mutex_unlock_def set1_remove_def LinkedListSet_remove_def
            bind_def emit_def ret_def split: if_splits)
    define s2 where "s2 = s\<lparr>writersMutex := True, set1 := set1 s - {key}, leftRight := READS_ON_LEFT\<rparr>"
    have "bind (toggleVersionAndWait ratio s2) (\<lambda>s.
             bind (set2_remove key s) (\<lambda>(ignored, s).
             bind (mutex_unlock s) (\<lambda>s. ret (True, s))))
          = Some (Inr ((True, s'), drop 4 t))"
      using assms m False k
      by (auto simp: remove_def mutex_lock_def set1_remove_def LinkedListSet_remove_def s2_def
            bind_def emit_def ret_def split: option.splits sum.splits)
    then obtain s3 tt t4 where tg: "toggleVersionAndWait ratio s2 = Some (Inr (s3, tt))"
      and rest: "bind (set2_remove key s3) (\<lambda>(ignored, s). bind (mutex_unlock s) (\<lambda>s. ret (True, s)))
          = Some (Inr ((True, s'), t4))" and d: "drop 4 t = tt @ t4"
      by (rule bind_eq_Inr)
    have t4: "t = [MutexLock, LeftRightLoad (leftRight s), SetRemove 1 key True, LeftRightStore READS_ON_LEFT] @ drop 4 t"
      using assms m False k
      by (auto simp: remove_def mutex_lock_def set1_remove_def LinkedListSet_remove_def
            bind_def emit_def ret_def split: option.splits sum.splits)
    from toggleVersionAndWait_frame[OF tg] obtain v where s3: "s3 = s2\<lparr>versionIndex := v\<rparr>"
      and q: "\<forall>e \<in> set tt. \<not> mutation e" by blast
    have "s' = s3\<lparr>set2 := set2 s3 - {key}, writersMutex := False\<rparr> \<and>
          t4 = [SetRemove 2 key (key \<in> set2 s3), MutexUnlock]"
      using rest
      by (auto simp: set2_remove_def LinkedListSet_remove_def mutex_unlock_def bind_def emit_def ret_def
            insert_absorb split: if_splits)
    then show ?thesis
      using q k False t4 d by (intro exI[of _ tt]) (simp add: s3 s2_def)
  qed
qed


lemma mirrors_after_quiet: "\<not> mutation e \<Longrightarrow> mirrors_after e m = m"
  by (cases e; cases m) (simp_all add: mutation_def)

lemma replay_append: "replay (a @ b) m = replay b (replay a m)"
  by (simp add: replay_def)

lemma replay_quiet: "\<forall>e \<in> set t. \<not> mutation e \<Longrightarrow> replay t m = m"
  by (induction t) (simp_all add: replay_def mirrors_after_quiet)

lemma replay_Cons: "replay (e # t) m = replay t (mirrors_after e m)"
  by (simp add: replay_def)

lemma prefix_quiet: "prefix u t \<Longrightarrow> \<forall>e \<in> set t. \<not> mutation e \<Longrightarrow> \<forall>e \<in> set u. \<not> mutation e"
  by (auto dest: set_mono_prefix)

lemma two_stepI:
  assumes t: "t = t1 @ [e1] @ t2 @ [e2] @ t3"
    and q1: "\<forall>e \<in> set t1. \<not> mutation e" and q2: "\<forall>e \<in> set t2. \<not> mutation e"
    and q3: "\<forall>e \<in> set t3. \<not> mutation e"
    and m: "mutation e1" "mutation e2"
    and d: "differ_by_exactly key (mirrors_after e1 (set1 s, set2 s))"
    and f: "mirrors_after e2 (mirrors_after e1 (set1 s, set2 s)) = (set1 s', set2 s')"
  shows "two_step key s s' t"
proof -
  have "differ_by_exactly key (replay (t1 @ [e1] @ u) (set1 s, set2 s))" if "prefix u t2" for u
  proof -
    have "\<forall>e \<in> set u. \<not> mutation e" using that q2 by (rule prefix_quiet)
    then show ?thesis using d q1 by (simp add: replay_append replay_quiet replay_Cons)
  qed
  moreover have "replay t (set1 s, set2 s) = (set1 s', set2 s')"
    using f q1 q2 q3 by (simp add: t replay_append replay_quiet replay_Cons)
  moreover have "list_all (\<lambda>e. \<not> mutation e) (t1 @ t2 @ t3)"
    using q1 q2 q3 by (auto simp: list_all_iff)
  ultimately show ?thesis
    unfolding two_step_def using t m by blast
qed


subsection \<open>Runs of the plain set\<close>

lemma plain_set_run_append:
  "plain_set_run (cs @ ds) S = plain_set_run cs S @ plain_set_run ds (fold (\<lambda>c S. snd (plain_set c S)) cs S)"
  by (induction cs arbitrary: S) simp_all

lemma plain_set_keeps:
  "k \<in> S \<Longrightarrow> Remove k \<notin> set mid \<Longrightarrow> k \<in> fold (\<lambda>c S. snd (plain_set c S)) mid S"
proof (induction mid arbitrary: S)
  case Nil
  then show ?case by simp
next
  case (Cons c mid)
  have "k \<in> snd (plain_set c S)" using Cons.prems by (cases c) auto
  then show ?case using Cons by simp
qed




subsection \<open>The example container\<close>

lemma wellformed_example: "wellformed 3 example_state"
  by (simp add: wellformed_def example_state_def)

lemma slots_example: "slots 3 2 = [0, 3]"
  by code_simp

lemma quiescent_example: "quiescent 3 example_state"
  by (simp add: quiescent_def example_state_def slots_example)


section \<open>The claims\<close>

text \<open>
  Claim C1 (sequential correctness). For every list of \<^verbatim>\<open>add\<close>, \<^verbatim>\<open>remove\<close> and
  \<^verbatim>\<open>contains\<close> calls that one thread issues on a newly constructed container, every
  call returns, and the values returned are those of a plain set that starts empty:
  \<^verbatim>\<open>add\<close> returns true iff the key was absent just before the call, \<^verbatim>\<open>remove\<close>
  returns true iff it was present, \<^verbatim>\<open>contains\<close> returns the membership that the
  earlier calls left.
\<close>

theorem C1_sequential_correctness:
  fixes cs :: "'k call list"
  assumes "valid_config default_cores ratio hw"
  shows "\<exists>s0 t0 s' t.
           LROrderedLinkedList default_cores ratio hw junk0 junk1 = Some (Inr (s0, t0)) \<and>
           run ratio h cs s0 = Some (Inr ((plain_set_run cs {}, s'), t))"
proof -
  from LROrderedLinkedList_at_rest[OF assms, of junk0 junk1]
  obtain s0 :: "'k lrstate" and t0
    where c: "LROrderedLinkedList default_cores ratio hw junk0 junk1 = Some (Inr (s0, t0))"
    and r: "at_rest ratio s0" and e: "set1 s0 = {}"
    by (elim exE conjE) (rule that)
  from run_plain_set[OF r, of h cs]
  obtain s' t where "run ratio h cs s0 = Some (Inr ((plain_set_run cs (set1 s0), s'), t))"
    by (elim exE conjE) (rule that)
  then have "run ratio h cs s0 = Some (Inr ((plain_set_run cs {}, s'), t))"
    by (simp only: e)
  with c show ?thesis by (intro exI conjI)
qed

theorem C1_sequential_correctness_witness:
  "valid_config LROLL_NUMBER_OF_CORES LROLL_COUNTERS_RATIO 0 \<and>
   (\<exists>s0 t0 s' t.
      LROrderedLinkedList LROLL_NUMBER_OF_CORES LROLL_COUNTERS_RATIO 0 (\<lambda>i. 0) (\<lambda>i. 0)
        = Some (Inr (s0 :: int lrstate, t0)) \<and>
      run LROLL_COUNTERS_RATIO 99 [Add 1, Add 2, Add 1, Remove 1, Contains 1, Contains 2, Remove 1] s0
        = Some (Inr (([True, True, False, True, False, True, False], s'), t)))"
proof -
  have v: "valid_config LROLL_NUMBER_OF_CORES LROLL_COUNTERS_RATIO 0"
    by (simp add: valid_config_def core_count_def LROLL_NUMBER_OF_CORES_def LROLL_COUNTERS_RATIO_def)
  have p: "plain_set_run [Add 1, Add 2, Add 1, Remove 1, Contains 1, Contains 2, Remove (1::int)] {}
      = [True, True, False, True, False, True, False]"
    by simp
  show ?thesis
    using C1_sequential_correctness[OF v, of "\<lambda>i. 0" "\<lambda>i. 0" 99
        "[Add 1, Add 2, Add 1, Remove 1, Contains 1, Contains 2, Remove (1::int)]"]
    unfolding p by (rule conjI[OF v])
qed

text \<open>
  Claim C4 (no-ops). When no writer holds the mutex and the key is in the set (in both
  mirrors), \<^verbatim>\<open>add\<close> returns false and the container is in the state it was in before
  the call; the call locked the mutex, read the selector, had the background mirror
  reject the key and unlocked: it stored neither the selector nor the version index and
  scanned no counter. \<^verbatim>\<open>remove\<close> of a key that is in neither mirror does the same.
\<close>

theorem C4_no_op_leaves_state:
  assumes "\<not> writersMutex s"
  shows "(key \<in> set1 s \<and> key \<in> set2 s \<longrightarrow>
            add ratio key s = Some (Inr ((False, s),
              [MutexLock, LeftRightLoad (leftRight s),
               SetAdd (if leftRight s = READS_ON_LEFT then 2 else 1) key False, MutexUnlock]))) \<and>
         (key \<notin> set1 s \<and> key \<notin> set2 s \<longrightarrow>
            remove ratio key s = Some (Inr ((False, s),
              [MutexLock, LeftRightLoad (leftRight s),
               SetRemove (if leftRight s = READS_ON_LEFT then 2 else 1) key False, MutexUnlock])))"
  using add_present[OF assms, of key ratio] remove_absent[OF assms, of key ratio] by simp

theorem C4_no_op_leaves_state_witness:
  "\<not> writersMutex example_state \<and> 7 \<in> set1 example_state \<and> 7 \<in> set2 example_state \<and>
   add 3 7 example_state = Some (Inr ((False, example_state),
     [MutexLock, LeftRightLoad 1, SetAdd 1 7 False, MutexUnlock])) \<and>
   8 \<notin> set1 example_state \<and> 8 \<notin> set2 example_state \<and>
   remove 3 8 example_state = Some (Inr ((False, example_state),
     [MutexLock, LeftRightLoad 1, SetRemove 1 8 False, MutexUnlock]))"
proof -
  have m: "\<not> writersMutex example_state" by (simp add: example_state_def)
  have l: "leftRight example_state = 1" "leftRight example_state \<noteq> READS_ON_LEFT"
    by (simp_all add: example_state_def READS_ON_LEFT_def READS_ON_RIGHT_def)
  have k: "7 \<in> set1 example_state" "7 \<in> set2 example_state"
          "8 \<notin> set1 example_state" "8 \<notin> set2 example_state"
    by (simp_all add: example_state_def)
  show ?thesis
    using C4_no_op_leaves_state[OF m, of 7 3] C4_no_op_leaves_state[OF m, of 8 3] m k l
    by simp
qed

text \<open>
  Claim C5 (the version toggle). In a well-formed container whose counters are all zero,
  \<^verbatim>\<open>toggleVersionAndWait\<close> returns. Its accesses are, in this order: the load of the
  version index \<open>cur\<close>, one pass over the array for \<open>next = 1 - cur\<close> that reads zero
  in every slot, the store of \<open>next\<close> into the version index, one pass over the array
  for \<open>cur\<close>. On return the version index is \<open>1 - cur\<close> and nothing else has changed,
  the two counter arrays included.
\<close>

theorem C5_toggle_terminates:
  assumes "wellformed ratio s"
    and "\<forall>c \<in> set (readersVersion0 s). c = 0" and "\<forall>c \<in> set (readersVersion1 s). c = 0"
  shows "toggleVersionAndWait ratio s =
     Some (Inr (s\<lparr>versionIndex := 1 - versionIndex s\<rparr>,
       [VersionIndexLoad (versionIndex s)]
       @ map (\<lambda>i. CounterLoad (1 - versionIndex s) (int i) 0) (slots ratio (numCores s))
       @ [VersionIndexStore (1 - versionIndex s)]
       @ map (\<lambda>i. CounterLoad (versionIndex s) (int i) 0) (slots ratio (numCores s))))"
proof -
  have "i < length (readersVersion0 s) \<and> i < length (readersVersion1 s)"
    if "i \<in> set (slots ratio (numCores s))" for i
    using that slot_bounds(1,2)[OF assms(1)] by (auto simp: slots_members)
  then have "quiescent ratio s"
    using assms(2,3) by (auto simp: quiescent_def list_all_iff)
  from toggleVersionAndWait_quiescent[OF assms(1) this] show ?thesis
    by (simp add: toggle_events_def scan_def)
qed

theorem C5_toggle_terminates_witness:
  "wellformed 3 example_state \<and>
   set (readersVersion0 example_state) = {0} \<and>
   set (readersVersion1 example_state) = {0} \<and>
   toggleVersionAndWait 3 example_state =
     Some (Inr (example_state\<lparr>versionIndex := 0\<rparr>,
       [VersionIndexLoad 1, CounterLoad 0 0 0, CounterLoad 0 3 0,
        VersionIndexStore 0, CounterLoad 1 0 0, CounterLoad 1 3 0]))"
proof -
  have z: "\<forall>c \<in> set (readersVersion0 example_state). c = 0"
          "\<forall>c \<in> set (readersVersion1 example_state). c = 0"
    by (simp_all add: example_state_def)
  have f: "versionIndex example_state = 1" "slots 3 (numCores example_state) = [0, 3]"
    by (simp_all add: example_state_def slots_example)
  have o: "set (readersVersion0 example_state) = {0}" "set (readersVersion1 example_state) = {0}"
    by (simp_all add: example_state_def)
  show ?thesis
    using C5_toggle_terminates[OF wellformed_example z] wellformed_example o
    by (simp add: f)
qed

text \<open>
  Claim C6 (arrive and depart). In a well-formed container, for every calling thread,
  \<^verbatim>\<open>thread_2_tid\<close> gives a slot inside both arrays; \<^verbatim>\<open>readIndicatorArrive\<close> adds one
  to that slot of the array of the current version index, changes nothing else and
  returns that version index. \<^verbatim>\<open>readIndicatorDepart\<close> subtracts one from the same slot
  of the array that its argument names (the first array for 0, the second otherwise),
  in every well-formed container of the same size, whatever the version index of that
  container is at the time of the call. So \<^verbatim>\<open>readIndicatorDepart\<close> with the index that
  \<^verbatim>\<open>readIndicatorArrive\<close> returned undoes it, also when the version index has been
  changed in between; after the pair every counter of both arrays has the value it had
  before, and with the version index untouched the container is in the state it was in
  before.
\<close>

theorem C6_arrive_depart_round_trip:
  fixes s :: "'k lrstate"
  assumes "wellformed ratio s"
  shows "\<exists>tid s1.
     thread_2_tid ratio h s = Some (Inr (tid, [])) \<and>
     0 \<le> tid \<and> nat tid < length (readersVersion0 s) \<and> nat tid < length (readersVersion1 s) \<and>
     readIndicatorArrive tid s =
       Some (Inr ((versionIndex s, s1),
         [VersionIndexLoad (versionIndex s), CounterFetchAdd (versionIndex s) tid 1])) \<and>
     s1 = (if versionIndex s = 0
           then s\<lparr>readersVersion0 := (readersVersion0 s)[nat tid := readersVersion0 s ! nat tid + 1]\<rparr>
           else s\<lparr>readersVersion1 := (readersVersion1 s)[nat tid := readersVersion1 s ! nat tid + 1]\<rparr>) \<and>
     (\<forall>epoch (s2 :: 'k lrstate). wellformed ratio s2 \<and> numCores s2 = numCores s \<longrightarrow>
        readIndicatorDepart tid epoch s2 =
          Some (Inr ((if epoch = 0
             then s2\<lparr>readersVersion0 := (readersVersion0 s2)[nat tid := readersVersion0 s2 ! nat tid - 1]\<rparr>
             else s2\<lparr>readersVersion1 := (readersVersion1 s2)[nat tid := readersVersion1 s2 ! nat tid - 1]\<rparr>),
            [CounterFetchAdd (if epoch = 0 then 0 else 1) tid (- 1)]))) \<and>
     (\<forall>v. v = 0 \<or> v = 1 \<longrightarrow>
        readIndicatorDepart tid (versionIndex s) (s1\<lparr>versionIndex := v\<rparr>) =
          Some (Inr (s\<lparr>versionIndex := v\<rparr>, [CounterFetchAdd (versionIndex s) tid (- 1)]))) \<and>
     readIndicatorDepart tid (versionIndex s) s1 =
       Some (Inr (s, [CounterFetchAdd (versionIndex s) tid (- 1)])) \<and>
     s = (if versionIndex s = 0
          then s1\<lparr>readersVersion0 := (readersVersion0 s1)[nat tid := readersVersion0 s1 ! nat tid - 1]\<rparr>
          else s1\<lparr>readersVersion1 := (readersVersion1 s1)[nat tid := readersVersion1 s1 ! nat tid - 1]\<rparr>)"
proof -
  from thread_2_tid_slot[OF assms, of h]
  obtain i where i: "i < nat (numCores s)"
    and t: "thread_2_tid ratio h s = Some (Inr (int (i * ratio), []))"
    by (elim exE conjE) (rule that)
  have v: "versionIndex s = 0 \<or> versionIndex s = 1" using assms by (simp add: wellformed_def)
  define s1 where "s1 = (if versionIndex s = 0
        then s\<lparr>readersVersion0 := (readersVersion0 s)[i * ratio := readersVersion0 s ! (i * ratio) + 1]\<rparr>
        else s\<lparr>readersVersion1 := (readersVersion1 s)[i * ratio := readersVersion1 s ! (i * ratio) + 1]\<rparr>)"
  have b: "i * ratio < length (readersVersion0 s)" "i * ratio < length (readersVersion1 s)"
    using slot_bounds(1,2)[OF assms i] .
  have a: "readIndicatorArrive (int (i * ratio)) s =
     Some (Inr ((versionIndex s, s1), [VersionIndexLoad (versionIndex s),
        CounterFetchAdd (versionIndex s) (int (i * ratio)) 1]))"
    unfolding s1_def by (rule readIndicatorArrive_slot[OF assms i])
  have any: "readIndicatorDepart (int (i * ratio)) epoch s2 =
          Some (Inr ((if epoch = 0
             then s2\<lparr>readersVersion0 := (readersVersion0 s2)[i * ratio := readersVersion0 s2 ! (i * ratio) - 1]\<rparr>
             else s2\<lparr>readersVersion1 := (readersVersion1 s2)[i * ratio := readersVersion1 s2 ! (i * ratio) - 1]\<rparr>),
            [CounterFetchAdd (if epoch = 0 then 0 else 1) (int (i * ratio)) (- 1)]))"
    if "wellformed ratio s2 \<and> numCores s2 = numCores s" for epoch and s2 :: "'k lrstate"
    using that i by (intro readIndicatorDepart_any) simp_all
  have tog: "readIndicatorDepart (int (i * ratio)) (versionIndex s) (s1\<lparr>versionIndex := x\<rparr>) =
          Some (Inr (s\<lparr>versionIndex := x\<rparr>, [CounterFetchAdd (versionIndex s) (int (i * ratio)) (- 1)]))"
    if "x = 0 \<or> x = 1" for x
  proof -
    have w2: "wellformed ratio (s1\<lparr>versionIndex := x\<rparr>) \<and> numCores (s1\<lparr>versionIndex := x\<rparr>) = numCores s"
      using assms that by (auto simp: s1_def wellformed_def)
    show ?thesis
      unfolding any[OF w2] using v b by (auto simp: s1_def)
  qed
  have d: "readIndicatorDepart (int (i * ratio)) (versionIndex s) s1 =
     Some (Inr (s, [CounterFetchAdd (versionIndex s) (int (i * ratio)) (- 1)]))"
  proof -
    have w1: "wellformed ratio s1 \<and> numCores s1 = numCores s"
      using assms by (auto simp: s1_def wellformed_def)
    show ?thesis
      unfolding any[OF w1] using v b by (auto simp: s1_def)
  qed
  have rt: "s = (if versionIndex s = 0
        then s1\<lparr>readersVersion0 := (readersVersion0 s1)[i * ratio := readersVersion0 s1 ! (i * ratio) - 1]\<rparr>
        else s1\<lparr>readersVersion1 := (readersVersion1 s1)[i * ratio := readersVersion1 s1 ! (i * ratio) - 1]\<rparr>)"
    using b by (simp add: s1_def)
  have n: "nat (int (i * ratio)) = i * ratio" by (rule nat_int)
  show ?thesis
    apply (rule exI[of _ "int (i * ratio)"])
    apply (rule exI[of _ s1])
    apply (intro conjI)
            apply (rule t)
           apply simp
          apply (simp only: n b)
         apply (simp only: n b)
        apply (rule a)
       apply (simp only: n s1_def)
      apply (intro allI impI, simp only: n, erule any)
      apply (intro allI impI, erule tog)
     apply (rule d)
    apply (simp only: n, rule rt)
    done
qed

theorem C6_arrive_depart_round_trip_witness:
  "wellformed 3 example_state \<and>
   (\<exists>tid s1.
     thread_2_tid 3 5 example_state = Some (Inr (tid, [])) \<and>
     0 \<le> tid \<and> nat tid < length (readersVersion0 example_state) \<and>
     nat tid < length (readersVersion1 example_state) \<and>
     readIndicatorArrive tid example_state =
       Some (Inr ((1, s1), [VersionIndexLoad 1, CounterFetchAdd 1 tid 1])) \<and>
     s1 = example_state\<lparr>readersVersion1 :=
            (readersVersion1 example_state)[nat tid := readersVersion1 example_state ! nat tid + 1]\<rparr> \<and>
     readIndicatorDepart tid 0 example_state =
       Some (Inr (example_state\<lparr>readersVersion0 :=
            (readersVersion0 example_state)[nat tid := readersVersion0 example_state ! nat tid - 1]\<rparr>,
         [CounterFetchAdd 0 tid (- 1)])) \<and>
     readIndicatorDepart tid 1 (s1\<lparr>versionIndex := 0\<rparr>) =
       Some (Inr (example_state\<lparr>versionIndex := 0\<rparr>, [CounterFetchAdd 1 tid (- 1)])) \<and>
     readIndicatorDepart tid 1 s1 = Some (Inr (example_state, [CounterFetchAdd 1 tid (- 1)])) \<and>
     example_state =
       s1\<lparr>readersVersion1 := (readersVersion1 s1)[nat tid := readersVersion1 s1 ! nat tid - 1]\<rparr>)"
proof -
  have f: "versionIndex example_state = 1" by (simp add: example_state_def)
  from C6_arrive_depart_round_trip[OF wellformed_example, of 5]
  obtain tid s1 where
    t: "thread_2_tid 3 5 example_state = Some (Inr (tid, []))" and
    b: "0 \<le> tid" "nat tid < length (readersVersion0 example_state)"
       "nat tid < length (readersVersion1 example_state)" and
    a: "readIndicatorArrive tid example_state =
       Some (Inr ((versionIndex example_state, s1),
         [VersionIndexLoad (versionIndex example_state),
          CounterFetchAdd (versionIndex example_state) tid 1]))" and
    s1: "s1 = (if versionIndex example_state = 0
           then example_state\<lparr>readersVersion0 := (readersVersion0 example_state)
                  [nat tid := readersVersion0 example_state ! nat tid + 1]\<rparr>
           else example_state\<lparr>readersVersion1 := (readersVersion1 example_state)
                  [nat tid := readersVersion1 example_state ! nat tid + 1]\<rparr>)" and
    any: "\<forall>epoch (s2 :: int lrstate). wellformed 3 s2 \<and> numCores s2 = numCores example_state \<longrightarrow>
        readIndicatorDepart tid epoch s2 =
          Some (Inr ((if epoch = 0
             then s2\<lparr>readersVersion0 := (readersVersion0 s2)[nat tid := readersVersion0 s2 ! nat tid - 1]\<rparr>
             else s2\<lparr>readersVersion1 := (readersVersion1 s2)[nat tid := readersVersion1 s2 ! nat tid - 1]\<rparr>),
            [CounterFetchAdd (if epoch = 0 then 0 else 1) tid (- 1)]))" and
    tog: "\<forall>v. v = 0 \<or> v = 1 \<longrightarrow>
        readIndicatorDepart tid (versionIndex example_state) (s1\<lparr>versionIndex := v\<rparr>) =
          Some (Inr (example_state\<lparr>versionIndex := v\<rparr>,
            [CounterFetchAdd (versionIndex example_state) tid (- 1)]))" and
    d: "readIndicatorDepart tid (versionIndex example_state) s1 =
       Some (Inr (example_state, [CounterFetchAdd (versionIndex example_state) tid (- 1)]))" and
    rt: "example_state = (if versionIndex example_state = 0
          then s1\<lparr>readersVersion0 := (readersVersion0 s1)[nat tid := readersVersion0 s1 ! nat tid - 1]\<rparr>
          else s1\<lparr>readersVersion1 := (readersVersion1 s1)[nat tid := readersVersion1 s1 ! nat tid - 1]\<rparr>)"
    by (elim exE, elim conjE) (rule that)
  have any0: "readIndicatorDepart tid 0 example_state =
       Some (Inr (example_state\<lparr>readersVersion0 :=
            (readersVersion0 example_state)[nat tid := readersVersion0 example_state ! nat tid - 1]\<rparr>,
         [CounterFetchAdd 0 tid (- 1)]))"
    using any[rule_format, of example_state 0] wellformed_example by simp
  have tog0: "readIndicatorDepart tid 1 (s1\<lparr>versionIndex := 0\<rparr>) =
       Some (Inr (example_state\<lparr>versionIndex := 0\<rparr>, [CounterFetchAdd 1 tid (- 1)]))"
    using tog[rule_format, of 0] by (simp add: f)
  show ?thesis
    apply (rule conjI[OF wellformed_example])
    apply (rule exI[of _ tid], rule exI[of _ s1])
    apply (intro conjI)
           apply (rule t)
          apply (rule b(1))
         apply (rule b(2))
        apply (rule b(3))
       apply (rule a[unfolded f])
      apply (rule s1[unfolded f, simplified])
       apply (rule any0)
      apply (rule tog0)
     apply (rule d[unfolded f])
    apply (rule rt[unfolded f, simplified])
    done
qed


text \<open>
  Claim C7 (the frame of \<^verbatim>\<open>contains\<close>). In a well-formed container \<^verbatim>\<open>contains\<close>
  returns the membership of the key in the mirror that the selector names (the first
  set when it reads \<^verbatim>\<open>READS_ON_LEFT\<close>, else the second), asks that mirror only, and
  leaves the container in the state it was in before the call: both mirrors, the
  selector, the version index and every counter.
\<close>

theorem C7_contains_frame:
  assumes "wellformed ratio s"
  shows "\<exists>tid.
     thread_2_tid ratio h s = Some (Inr (tid, [])) \<and>
     contains ratio key h s =
       Some (Inr ((if leftRight s = READS_ON_LEFT then key \<in> set1 s else key \<in> set2 s, s),
         [VersionIndexLoad (versionIndex s),
          CounterFetchAdd (versionIndex s) tid 1,
          LeftRightLoad (leftRight s),
          SetContains (if leftRight s = READS_ON_LEFT then 1 else 2) key
            (if leftRight s = READS_ON_LEFT then key \<in> set1 s else key \<in> set2 s),
          CounterFetchAdd (versionIndex s) tid (- 1)]))"
proof -
  from thread_2_tid_slot[OF assms, of h]
  obtain i where i: "i < nat (numCores s)"
    and t: "thread_2_tid ratio h s = Some (Inr (int (i * ratio), []))"
    by (elim exE conjE) (rule that)
  show ?thesis
    by (rule exI[of _ "int (i * ratio)"]) (simp only: t contains_slot[OF assms i t] simp_thms)
qed

theorem C7_contains_frame_witness:
  "wellformed 3 example_state \<and>
   (\<exists>tid.
     thread_2_tid 3 5 example_state = Some (Inr (tid, [])) \<and>
     contains 3 7 5 example_state =
       Some (Inr ((True, example_state),
         [VersionIndexLoad 1, CounterFetchAdd 1 tid 1, LeftRightLoad 1,
          SetContains 2 7 True, CounterFetchAdd 1 tid (- 1)])))"
proof -
  have f: "versionIndex example_state = 1" "leftRight example_state = 1"
    "leftRight example_state \<noteq> READS_ON_LEFT" "7 \<in> set2 example_state"
    by (simp_all add: example_state_def READS_ON_LEFT_def READS_ON_RIGHT_def)
  show ?thesis
    using C7_contains_frame[OF wellformed_example, of 5 7] wellformed_example
    by (simp add: f READS_ON_LEFT_def)
qed

text \<open>
  Claim C3 (mirror convergence). From every state whose mirrors hold the same keys, every
  \<^verbatim>\<open>add\<close> and every \<^verbatim>\<open>remove\<close> that returns true ends with mirrors that hold the same
  keys again. The call changes each mirror once; at every point between the two changes
  the mirrors differ by exactly the key of the call.
\<close>

theorem C3_mirrors_converge:
  assumes "set1 s = set2 s"
  shows "(add ratio key s = Some (Inr ((True, s'), t)) \<longrightarrow>
            set1 s' = set2 s' \<and> two_step key s s' t) \<and>
         (remove ratio key s = Some (Inr ((True, s'), t)) \<longrightarrow>
            set1 s' = set2 s' \<and> two_step key s s' t)"
proof (intro conjI impI)
  assume a: "add ratio key s = Some (Inr ((True, s'), t))"
  from add_True_shape[OF a] obtain tt where q: "\<forall>e \<in> set tt. \<not> mutation e"
    and sh: "if leftRight s = READS_ON_LEFT
      then key \<notin> set2 s \<and>
           t = [MutexLock, LeftRightLoad (leftRight s)] @ [SetAdd 2 key True]
               @ (LeftRightStore READS_ON_RIGHT # tt) @ [SetAdd 1 key (key \<notin> set1 s)] @ [MutexUnlock]
      else key \<notin> set1 s \<and>
           t = [MutexLock, LeftRightLoad (leftRight s)] @ [SetAdd 1 key True]
               @ (LeftRightStore READS_ON_LEFT # tt) @ [SetAdd 2 key (key \<notin> set2 s)] @ [MutexUnlock]"
    and s1: "set1 s' = insert key (set1 s)" and s2: "set2 s' = insert key (set2 s)"
    by (elim exE conjE) (rule that)
  show "set1 s' = set2 s'" using s1 s2 assms by simp
  show "two_step key s s' t"
  proof (cases "leftRight s = READS_ON_LEFT")
    case True
    with sh have k: "key \<notin> set2 s" and t: "t = [MutexLock, LeftRightLoad (leftRight s)] @ [SetAdd 2 key True]
               @ (LeftRightStore READS_ON_RIGHT # tt) @ [SetAdd 1 key (key \<notin> set1 s)] @ [MutexUnlock]"
      by simp_all
    show ?thesis
      by (rule two_stepI[OF t])
         (use q k assms in \<open>auto simp: mutation_def differ_by_exactly_def LinkedListSet_add_def s1 s2\<close>)
  next
    case False
    with sh have k: "key \<notin> set1 s" and t: "t = [MutexLock, LeftRightLoad (leftRight s)] @ [SetAdd 1 key True]
               @ (LeftRightStore READS_ON_LEFT # tt) @ [SetAdd 2 key (key \<notin> set2 s)] @ [MutexUnlock]"
      by simp_all
    show ?thesis
      by (rule two_stepI[OF t])
         (use q k assms in \<open>auto simp: mutation_def differ_by_exactly_def LinkedListSet_add_def s1 s2\<close>)
  qed
next
  assume a: "remove ratio key s = Some (Inr ((True, s'), t))"
  from remove_True_shape[OF a] obtain tt where q: "\<forall>e \<in> set tt. \<not> mutation e"
    and sh: "if leftRight s = READS_ON_LEFT
      then key \<in> set2 s \<and>
           t = [MutexLock, LeftRightLoad (leftRight s)] @ [SetRemove 2 key True]
               @ (LeftRightStore READS_ON_RIGHT # tt) @ [SetRemove 1 key (key \<in> set1 s)] @ [MutexUnlock]
      else key \<in> set1 s \<and>
           t = [MutexLock, LeftRightLoad (leftRight s)] @ [SetRemove 1 key True]
               @ (LeftRightStore READS_ON_LEFT # tt) @ [SetRemove 2 key (key \<in> set2 s)] @ [MutexUnlock]"
    and s1: "set1 s' = set1 s - {key}" and s2: "set2 s' = set2 s - {key}"
    by (elim exE conjE) (rule that)
  show "set1 s' = set2 s'" using s1 s2 assms by simp
  show "two_step key s s' t"
  proof (cases "leftRight s = READS_ON_LEFT")
    case True
    with sh have k: "key \<in> set2 s" and t: "t = [MutexLock, LeftRightLoad (leftRight s)] @ [SetRemove 2 key True]
               @ (LeftRightStore READS_ON_RIGHT # tt) @ [SetRemove 1 key (key \<in> set1 s)] @ [MutexUnlock]"
      by simp_all
    show ?thesis
      by (rule two_stepI[OF t])
         (use q k assms in \<open>auto simp: mutation_def differ_by_exactly_def LinkedListSet_remove_def s1 s2\<close>)
  next
    case False
    with sh have k: "key \<in> set1 s" and t: "t = [MutexLock, LeftRightLoad (leftRight s)] @ [SetRemove 1 key True]
               @ (LeftRightStore READS_ON_LEFT # tt) @ [SetRemove 2 key (key \<in> set2 s)] @ [MutexUnlock]"
      by simp_all
    show ?thesis
      by (rule two_stepI[OF t])
         (use q k assms in \<open>auto simp: mutation_def differ_by_exactly_def LinkedListSet_remove_def s1 s2\<close>)
  qed
qed

theorem C3_mirrors_converge_witness:
  "set1 example_state = set2 example_state \<and>
   add 3 8 example_state =
     Some (Inr ((True,
        example_state\<lparr>set1 := insert 8 (set1 example_state), set2 := insert 8 (set2 example_state),
          leftRight := READS_ON_LEFT, versionIndex := 1 - versionIndex example_state\<rparr>),
       [MutexLock, LeftRightLoad (leftRight example_state), SetAdd 1 8 True,
        LeftRightStore READS_ON_LEFT] @ toggle_events 3 example_state @
       [SetAdd 2 8 True, MutexUnlock])) \<and>
   set1 (example_state\<lparr>set1 := insert 8 (set1 example_state), set2 := insert 8 (set2 example_state),
          leftRight := READS_ON_LEFT, versionIndex := 1 - versionIndex example_state\<rparr>) =
   set2 (example_state\<lparr>set1 := insert 8 (set1 example_state), set2 := insert 8 (set2 example_state),
          leftRight := READS_ON_LEFT, versionIndex := 1 - versionIndex example_state\<rparr>) \<and>
   two_step 8 example_state
     (example_state\<lparr>set1 := insert 8 (set1 example_state), set2 := insert 8 (set2 example_state),
          leftRight := READS_ON_LEFT, versionIndex := 1 - versionIndex example_state\<rparr>)
     ([MutexLock, LeftRightLoad (leftRight example_state), SetAdd 1 8 True,
        LeftRightStore READS_ON_LEFT] @ toggle_events 3 example_state @
       [SetAdd 2 8 True, MutexUnlock]) \<and>
   remove 3 7 example_state =
     Some (Inr ((True,
        example_state\<lparr>set1 := set1 example_state - {7}, set2 := set2 example_state - {7},
          leftRight := READS_ON_LEFT, versionIndex := 1 - versionIndex example_state\<rparr>),
       [MutexLock, LeftRightLoad (leftRight example_state), SetRemove 1 7 True,
        LeftRightStore READS_ON_LEFT] @ toggle_events 3 example_state @
       [SetRemove 2 7 True, MutexUnlock])) \<and>
   two_step 7 example_state
     (example_state\<lparr>set1 := set1 example_state - {7}, set2 := set2 example_state - {7},
          leftRight := READS_ON_LEFT, versionIndex := 1 - versionIndex example_state\<rparr>)
     ([MutexLock, LeftRightLoad (leftRight example_state), SetRemove 1 7 True,
        LeftRightStore READS_ON_LEFT] @ toggle_events 3 example_state @
       [SetRemove 2 7 True, MutexUnlock])"
proof -
  have e: "set1 example_state = set2 example_state" by (simp add: example_state_def)
  have m: "\<not> writersMutex example_state" by (simp add: example_state_def)
  have l: "leftRight example_state \<noteq> READS_ON_LEFT"
    by (simp add: example_state_def READS_ON_LEFT_def READS_ON_RIGHT_def)
  have k8: "if leftRight example_state = READS_ON_LEFT then 8 \<notin> set2 example_state
            else 8 \<notin> set1 example_state"
    by (simp add: example_state_def)
  have k7: "if leftRight example_state = READS_ON_LEFT then 7 \<in> set2 example_state
            else 7 \<in> set1 example_state"
    by (simp add: example_state_def)
  have f: "8 \<notin> set2 example_state" "7 \<in> set2 example_state" by (simp_all add: example_state_def)
  note a = add_absent[OF wellformed_example quiescent_example m k8, simplified l f if_False simp_thms]
  note r = remove_present[OF wellformed_example quiescent_example m k7, simplified l f if_False simp_thms]
  from C3_mirrors_converge[OF e, of 3 8, THEN conjunct1, rule_format, OF a]
       C3_mirrors_converge[OF e, of 3 7, THEN conjunct2, rule_format, OF r] e a r
  show ?thesis by (intro conjI) (erule conjunct1 conjunct2 | assumption)+
qed

text \<open>
  Claim C9 (the scenario). On a newly constructed container, from one thread:
  \<^verbatim>\<open>add(5), add(5), contains(5), remove(5), contains(5), remove(5)\<close> return true, false,
  true, true, false, false; for every key \<open>k\<close> and every list of calls without a
  \<^verbatim>\<open>remove(k)\<close> between them, the first \<^verbatim>\<open>add(k)\<close> returns true and the second returns
  false; and \<^verbatim>\<open>remove(k)\<close> on the empty container returns false and changes nothing.
\<close>

theorem C9_scenario:
  fixes junk0 junk1 :: "nat \<Rightarrow> 32 word"
  assumes "valid_config default_cores ratio hw"
  shows "\<exists>(s0 :: ('k::numeral) lrstate) t0.
     LROrderedLinkedList default_cores ratio hw junk0 junk1 = Some (Inr (s0, t0)) \<and>
     (\<exists>s' t. run ratio h [Add 5, Add 5, Contains 5, Remove 5, Contains 5, Remove 5] s0
        = Some (Inr (([True, False, True, True, False, False], s'), t))) \<and>
     (\<forall>k mid. Remove k \<notin> set mid \<longrightarrow>
        (\<exists>s' t. run ratio h (Add k # mid @ [Add k]) s0
           = Some (Inr ((True # plain_set_run mid {k} @ [False], s'), t)))) \<and>
     (\<forall>k. remove ratio k s0 = Some (Inr ((False, s0),
        [MutexLock, LeftRightLoad READS_ON_LEFT, SetRemove 2 k False, MutexUnlock])))"
proof -
  from LROrderedLinkedList_at_rest[OF assms, of junk0 junk1]
  obtain s0 :: "'k lrstate" and t0
    where c: "LROrderedLinkedList default_cores ratio hw junk0 junk1 = Some (Inr (s0, t0))"
    and r: "at_rest ratio s0" and e: "set1 s0 = {}"
    and t0: "t0 = [LeftRightStore READS_ON_LEFT, VersionIndexStore 0]
                  @ init_stores (slots ratio (core_count default_cores hw))"
    by (elim exE conjE) (rule that)
  have lr: "leftRight s0 = READS_ON_LEFT"
    using c unfolding LROrderedLinkedList_valid[OF assms] by auto
  have m: "\<not> writersMutex s0" and e2: "set2 s0 = {}" using r e by (simp_all add: at_rest_def)
  have runs: "\<exists>s' t. run ratio h cs s0 = Some (Inr ((plain_set_run cs {}, s'), t))" for cs
  proof -
    from run_plain_set[OF r, of h cs]
    obtain s' t where "run ratio h cs s0 = Some (Inr ((plain_set_run cs (set1 s0), s'), t))"
      by (elim exE conjE) (rule that)
    then have "run ratio h cs s0 = Some (Inr ((plain_set_run cs {}, s'), t))" by (simp only: e)
    then show ?thesis by (intro exI)
  qed
  have 1: "\<exists>s' t. run ratio h [Add 5, Add 5, Contains 5, Remove 5, Contains 5, Remove 5] s0
        = Some (Inr (([True, False, True, True, False, False], s'), t))"
    using runs[of "[Add 5, Add 5, Contains 5, Remove 5, Contains 5, Remove 5]"] by simp
  have 2: "\<exists>s' t. run ratio h (Add k # mid @ [Add k]) s0
           = Some (Inr ((True # plain_set_run mid {k} @ [False], s'), t))"
    if "Remove k \<notin> set mid" for k mid
  proof -
    have "k \<in> fold (\<lambda>c S. snd (plain_set c S)) mid {k}"
      using that by (intro plain_set_keeps) simp_all
    then have "plain_set_run (Add k # mid @ [Add k]) {} = True # plain_set_run mid {k} @ [False]"
      by (simp add: plain_set_run_append)
    with runs[of "Add k # mid @ [Add k]"] show ?thesis by (simp only:)
  qed
  have 3: "remove ratio k s0 = Some (Inr ((False, s0),
        [MutexLock, LeftRightLoad READS_ON_LEFT, SetRemove 2 k False, MutexUnlock]))" for k
    using remove_absent[OF m, of k ratio] by (simp add: lr e e2)
  show ?thesis
    apply (rule exI[of _ s0], rule exI[of _ t0])
    apply (intro conjI)
       apply (rule c)
      apply (rule 1)
     apply (intro allI impI, erule 2)
    apply (intro allI, rule 3)
    done
qed

theorem C9_scenario_witness:
  "valid_config LROLL_NUMBER_OF_CORES LROLL_COUNTERS_RATIO 0 \<and>
   (\<exists>(s0 :: int lrstate) t0.
     LROrderedLinkedList LROLL_NUMBER_OF_CORES LROLL_COUNTERS_RATIO 0 (\<lambda>i. 0) (\<lambda>i. 0)
       = Some (Inr (s0, t0)) \<and>
     (\<exists>s' t. run LROLL_COUNTERS_RATIO 99 [Add 5, Add 5, Contains 5, Remove 5, Contains 5, Remove 5] s0
        = Some (Inr (([True, False, True, True, False, False], s'), t))) \<and>
     (\<exists>s' t. run LROLL_COUNTERS_RATIO 99 (Add 3 # [Contains 3, Add 4, Remove 4] @ [Add 3]) s0
        = Some (Inr ((True # plain_set_run [Contains 3, Add 4, Remove (4::int)] {3} @ [False], s'), t))) \<and>
     remove LROLL_COUNTERS_RATIO 3 s0 = Some (Inr ((False, s0),
        [MutexLock, LeftRightLoad READS_ON_LEFT, SetRemove 2 3 False, MutexUnlock])))"
proof -
  have v: "valid_config LROLL_NUMBER_OF_CORES LROLL_COUNTERS_RATIO 0"
    by (simp add: valid_config_def core_count_def LROLL_NUMBER_OF_CORES_def LROLL_COUNTERS_RATIO_def)
  have n: "Remove (3::int) \<notin> set [Contains 3, Add 4, Remove 4]" by simp
  from C9_scenario[where ?'k = int, OF v, of "\<lambda>i. 0" "\<lambda>i. 0" 99]
  obtain s0 :: "int lrstate" and t0 where
    c: "LROrderedLinkedList LROLL_NUMBER_OF_CORES LROLL_COUNTERS_RATIO 0 (\<lambda>i. 0) (\<lambda>i. 0)
       = Some (Inr (s0, t0))" and
    1: "\<exists>s' t. run LROLL_COUNTERS_RATIO 99 [Add 5, Add 5, Contains 5, Remove 5, Contains 5, Remove 5] s0
        = Some (Inr (([True, False, True, True, False, False], s'), t))" and
    2: "\<forall>k mid. Remove k \<notin> set mid \<longrightarrow>
        (\<exists>s' t. run LROLL_COUNTERS_RATIO 99 (Add k # mid @ [Add k]) s0
           = Some (Inr ((True # plain_set_run mid {k} @ [False], s'), t)))" and
    3: "\<forall>k. remove LROLL_COUNTERS_RATIO k s0 = Some (Inr ((False, s0),
        [MutexLock, LeftRightLoad READS_ON_LEFT, SetRemove 2 k False, MutexUnlock]))"
    by (elim exE, elim conjE) (rule that)
  from 2 n have k2: "\<exists>s' t. run LROLL_COUNTERS_RATIO 99 (Add 3 # [Contains 3, Add 4, Remove 4] @ [Add 3]) s0
        = Some (Inr ((True # plain_set_run [Contains 3, Add 4, Remove (4::int)] {3} @ [False], s'), t))"
    by (elim allE impE)
  from 3 have k3: "remove LROLL_COUNTERS_RATIO 3 s0 = Some (Inr ((False, s0),
        [MutexLock, LeftRightLoad READS_ON_LEFT, SetRemove 2 3 False, MutexUnlock]))"
    by (rule spec)
  show ?thesis
    apply (rule conjI[OF v])
    apply (rule exI[of _ s0], rule exI[of _ t0])
    apply (intro conjI)
       apply (rule c)
      apply (rule 1)
     apply (rule k2)
    apply (rule k3)
    done
qed





text \<open>
  Claim C8 (the core count), as the specification states it, fails on the code: the
  constructor takes no argument, so there is no hint to give. On a machine where
  \<^verbatim>\<open>hardware_concurrency()\<close> returns 8 the constructor stores 8 in \<^verbatim>\<open>_numCores\<close>,
  while a core-count hint of 4 asks for 4. The value 8 is not 0, so the constructor does
  not read the default \<^verbatim>\<open>LROLLS_NUMBER_OF_CORES\<close>; by \<open>LROrderedLinkedList_numCores\<close>
  the count stored is 8 for every value of the two macros under which the arrays can be
  allocated.
\<close>

theorem C8_core_count_counterexample:
  "map_option numCores
     (returned (LROrderedLinkedList LROLL_NUMBER_OF_CORES LROLL_COUNTERS_RATIO 8 zeroed zeroed
        :: (int lrstate, int) res))
   \<noteq> Some (spec_core_count (Some 4) 8)"
proof -
  have v: "valid_config LROLL_NUMBER_OF_CORES LROLL_COUNTERS_RATIO 8"
    by (simp add: valid_config_def core_count_def LROLL_COUNTERS_RATIO_def)
  show ?thesis
    unfolding LROrderedLinkedList_numCores[OF v]
    by (simp add: spec_core_count_def core_count_def)
qed


text \<open>
  Claim C8, amended: the constructor accepts no hint. For every configuration under which
  the arrays can be allocated it returns, and the core count is the runtime estimate: the
  value of \<^verbatim>\<open>hardware_concurrency()\<close>, or the compile-time default when that value
  is 0, which is what the specification's count is when no hint is given. The two counter
  arrays have \<open>numCores * ratio\<close> entries each. Nothing else of the constructed
  container depends on the count: both mirrors are empty, the selector reads
  \<^verbatim>\<open>READS_ON_LEFT\<close>, the version index is 0 and the mutex is free. Whatever the count,
  every list of calls returns the results of the plain set.
\<close>

theorem C8_core_count:
  fixes junk0 junk1 :: "nat \<Rightarrow> 32 word"
  assumes "valid_config default_cores ratio hw"
  shows "\<exists>(s0 :: 'k lrstate) t0.
     LROrderedLinkedList default_cores ratio hw junk0 junk1 = Some (Inr (s0, t0)) \<and>
     numCores s0 = (if sint hw = 0 then default_cores else sint hw) \<and>
     numCores s0 = spec_core_count None (core_count default_cores hw) \<and>
     readersLength s0 = numCores s0 * int ratio \<and>
     length (readersVersion0 s0) = nat (numCores s0) * ratio \<and>
     length (readersVersion1 s0) = nat (numCores s0) * ratio \<and>
     set1 s0 = {} \<and> set2 s0 = {} \<and> leftRight s0 = READS_ON_LEFT \<and> versionIndex s0 = 0 \<and>
     \<not> writersMutex s0 \<and>
     (\<forall>h cs. \<exists>s' t. run ratio h cs s0 = Some (Inr ((plain_set_run cs {}, s'), t)))"
proof -
  from LROrderedLinkedList_at_rest[OF assms, of junk0 junk1]
  obtain s0 :: "'k lrstate" and t0
    where c: "LROrderedLinkedList default_cores ratio hw junk0 junk1 = Some (Inr (s0, t0))"
    and r: "at_rest ratio s0" and e: "set1 s0 = {}"
    and n: "numCores s0 = core_count default_cores hw"
    by (elim exE conjE) (rule that)
  have w: "wellformed ratio s0" using r by (simp add: at_rest_def)
  have l: "readersLength s0 = numCores s0 * int ratio" using w by (simp add: wellformed_def)
  have p: "0 < numCores s0" using w by (simp add: wellformed_def)
  have ln: "nat (readersLength s0) = nat (numCores s0) * ratio"
    using p by (simp add: l nat_mult_distrib)
  have l0: "length (readersVersion0 s0) = nat (numCores s0) * ratio"
    and l1: "length (readersVersion1 s0) = nat (numCores s0) * ratio"
    using w ln by (simp_all add: wellformed_def)
  have e2: "set2 s0 = {}" using r e by (simp add: at_rest_def)
  have m: "\<not> writersMutex s0" using r by (simp add: at_rest_def)
  have f: "leftRight s0 = READS_ON_LEFT \<and> versionIndex s0 = 0"
    using c unfolding LROrderedLinkedList_valid[OF assms] by auto
  have runs: "\<exists>s' t. run ratio h cs s0 = Some (Inr ((plain_set_run cs {}, s'), t))" for h cs
  proof -
    from run_plain_set[OF r, of h cs]
    obtain s' t where "run ratio h cs s0 = Some (Inr ((plain_set_run cs (set1 s0), s'), t))"
      by (elim exE conjE) (rule that)
    then have "run ratio h cs s0 = Some (Inr ((plain_set_run cs {}, s'), t))" by (simp only: e)
    then show ?thesis by (intro exI)
  qed
  show ?thesis
    apply (rule exI[of _ s0], rule exI[of _ t0])
    apply (intro conjI)
               apply (rule c)
              apply (simp only: n core_count_def)
             apply (simp add: n spec_core_count_def)
            apply (rule l)
           apply (rule l0)
          apply (rule l1)
         apply (rule e)
        apply (rule e2)
       apply (rule f[THEN conjunct1])
      apply (rule f[THEN conjunct2])
     apply (rule m)
    apply (intro allI, rule runs)
    done
qed

theorem C8_core_count_witness:
  "valid_config LROLL_NUMBER_OF_CORES LROLL_COUNTERS_RATIO 8 \<and>
   (\<exists>(s0 :: int lrstate) t0.
     LROrderedLinkedList LROLL_NUMBER_OF_CORES LROLL_COUNTERS_RATIO 8 zeroed zeroed
       = Some (Inr (s0, t0)) \<and>
     numCores s0 = 8 \<and> readersLength s0 = 384 \<and>
     length (readersVersion0 s0) = 384 \<and> length (readersVersion1 s0) = 384 \<and>
     set1 s0 = {} \<and> set2 s0 = {} \<and> leftRight s0 = READS_ON_LEFT \<and> versionIndex s0 = 0 \<and>
     \<not> writersMutex s0 \<and>
     (\<exists>s' t. run LROLL_COUNTERS_RATIO 7 [Add 1, Contains 1] s0 = Some (Inr (([True, True], s'), t))))"
proof -
  have v: "valid_config LROLL_NUMBER_OF_CORES LROLL_COUNTERS_RATIO 8"
    by (simp add: valid_config_def core_count_def LROLL_COUNTERS_RATIO_def)
  from C8_core_count[where ?'k = int, OF v, of zeroed zeroed]
  obtain s0 :: "int lrstate" and t0 where
    c: "LROrderedLinkedList LROLL_NUMBER_OF_CORES LROLL_COUNTERS_RATIO 8 zeroed zeroed
       = Some (Inr (s0, t0))" and
    n: "numCores s0 = (if sint (8 :: 32 word) = 0 then LROLL_NUMBER_OF_CORES else sint (8 :: 32 word))" and
    l: "readersLength s0 = numCores s0 * int LROLL_COUNTERS_RATIO" and
    l0: "length (readersVersion0 s0) = nat (numCores s0) * LROLL_COUNTERS_RATIO" and
    l1: "length (readersVersion1 s0) = nat (numCores s0) * LROLL_COUNTERS_RATIO" and
    f: "set1 s0 = {}" "set2 s0 = {}" "leftRight s0 = READS_ON_LEFT" "versionIndex s0 = 0"
       "\<not> writersMutex s0" and
    r: "\<forall>h cs. \<exists>s' t. run LROLL_COUNTERS_RATIO h cs s0 = Some (Inr ((plain_set_run cs {}, s'), t))"
    by (elim exE, elim conjE) (rule that)
  have n8: "numCores s0 = 8" using n by simp
  have "\<exists>s' t. run LROLL_COUNTERS_RATIO 7 [Add 1, Contains 1] s0
      = Some (Inr ((plain_set_run [Add 1, Contains (1::int)] {}, s'), t))"
    using r by (elim allE)
  then have r': "\<exists>s' t. run LROLL_COUNTERS_RATIO 7 [Add 1, Contains 1] s0
      = Some (Inr (([True, True], s'), t))"
    by simp
  show ?thesis
    apply (rule conjI[OF v])
    apply (rule exI[of _ s0], rule exI[of _ t0])
    apply (intro conjI)
              apply (rule c)
             apply (rule n8)
            apply (simp add: l n8 LROLL_COUNTERS_RATIO_def)
           apply (simp add: l0 n8 LROLL_COUNTERS_RATIO_def)
          apply (simp add: l1 n8 LROLL_COUNTERS_RATIO_def)
         apply (rule f(1))
        apply (rule f(2))
       apply (rule f(3))
      apply (rule f(4))
     apply (rule f(5))
    apply (rule r')
    done
qed

end
